theory Spec2Isabelle
  imports Complex_Main "HOL-Library.Log_Nat"
begin

section \<open>Large-history retrieval and graph assembly of gitvisualizer\<close>

text \<open>
  The development follows three source files:
  \<^item> \<^verbatim>\<open>backend/src/services/git.service.ts\<close> and \<^verbatim>\<open>backend/src/routes/repository.routes.ts\<close>:
    size classification, paginated fetch, chunked streaming, the event-stream route;
  \<^item> \<^verbatim>\<open>frontend/src/store/repositoryStore.ts\<close>: the callbacks that consume the stream;
  \<^item> \<^verbatim>\<open>frontend/src/utils/layoutEngine.ts\<close>: the commit graph layout.

  JavaScript strings are \<^typ>\<open>string\<close>; counts are \<^typ>\<open>nat\<close>, as git prints them; page
  sizes, chunk sizes and offsets are \<^typ>\<open>nat\<close> in the service as its callers in the client
  use it, and \<^typ>\<open>int\<close> where the route reads the size from the query string; an
  \<^verbatim>\<open>Error\<close> is represented by its message; a rejected promise or a thrown exception is
  the \<open>Inl\<close> branch of a sum.
\<close>

subsection \<open>String helpers of the JavaScript runtime\<close>

text \<open>\<^verbatim>\<open>s.split(sep)\<close> for a one-character separator: the empty string gives one empty part.\<close>

fun split_on :: "char \<Rightarrow> string \<Rightarrow> string list" where
  "split_on sep [] = [[]]"
| "split_on sep (c # cs) =
     (if c = sep then [] # split_on sep cs
      else (case split_on sep cs of
              w # ws \<Rightarrow> (c # w) # ws
            | [] \<Rightarrow> [[c]]))"

text \<open>White space removed by \<^verbatim>\<open>trim()\<close>, restricted to the ASCII characters
  (space, tab, line feed, vertical tab, form feed, carriage return).\<close>

definition isSpace :: "char \<Rightarrow> bool" where
  "isSpace c = (c \<in> set [CHR '' '', CHR 0x09, CHR 0x0A, CHR 0x0B, CHR 0x0C, CHR 0x0D])"

definition trim :: "string \<Rightarrow> string" where
  "trim s = rev (dropWhile isSpace (rev (dropWhile isSpace s)))"

definition startsWith :: "string \<Rightarrow> string \<Rightarrow> bool" where
  "startsWith s p = (take (length p) s = p)"

text \<open>\<^verbatim>\<open>s.replace(pat, rep)\<close> with a string pattern replaces the first occurrence only.\<close>

fun replaceFirst :: "string \<Rightarrow> string \<Rightarrow> string \<Rightarrow> string" where
  "replaceFirst pat rep [] = (if pat = [] then rep else [])"
| "replaceFirst pat rep (c # cs) =
     (if take (length pat) (c # cs) = pat then rep @ drop (length pat) (c # cs)
      else c # replaceFirst pat rep cs)"

subsection \<open>Data model (\<^verbatim>\<open>git.service.ts\<close>, \<^verbatim>\<open>types/index.ts\<close>)\<close>

text \<open>Each interface is a record. A field name that several interfaces share carries a prefix
  here (\<open>author_name\<close>, \<open>branch_name\<close>, \<open>md_path\<close>, \<open>le_hash\<close>, \<open>chunk_commits\<close>,
  \<open>view_commits\<close>, ...), since a field name denotes one selector.\<close>

record Author =
  author_name :: string
  author_email :: string

datatype RefType = RefBranch | RefTag | RefRemote

record RefInfo =
  ref_name :: string
  ref_type :: RefType
  isHead :: bool

record Commit =
  hash :: string
  shortHash :: string
  message :: string
  body :: string
  author :: Author
  date :: string
  parents :: "string list"
  refs :: "RefInfo list"

record Branch =
  branch_name :: string
  branch_commit :: string
  isRemote :: bool
  branch_isHead :: bool

record Tag =
  tag_name :: string
  tag_commit :: string

datatype LoadMode = Full | Paginated | Simplified

record RepoStats =
  totalCommits :: nat
  isLargeRepo :: bool
  recommendedMode :: LoadMode

record RepositoryMetadata =
  md_path :: string
  md_name :: string
  md_currentBranch :: string
  md_branches :: "Branch list"
  md_tags :: "Tag list"
  md_stats :: RepoStats

record PaginationOptions =
  maxCount :: "nat option"
  skip :: "nat option"
  firstParent :: "bool option"

record PaginatedCommits =
  commits :: "Commit list"
  total :: nat
  hasMore :: bool

text \<open>The entry type \<^verbatim>\<open>LogEntry\<close> of \<^verbatim>\<open>getCommitsPaginated\<close>: the fields of the log format.\<close>

record LogEntry =
  le_hash :: string
  le_shortHash :: string
  le_message :: string
  le_body :: string
  le_authorName :: string
  le_authorEmail :: string
  le_date :: string
  le_parents :: string
  le_refs :: string

subsection \<open>The version-control collaborator\<close>

text \<open>
  The service talks to git through \<^verbatim>\<open>simple-git\<close>. A repository handle is modelled by what
  each command answers for it:
  \<^item> \<open>checkIsRepo\<close>: the answer of \<^verbatim>\<open>git.checkIsRepo()\<close>, or its failure;
  \<^item> \<open>logAll fp\<close>: the complete enumeration of \<^verbatim>\<open>git log --all --date-order\<close>, with
    \<^verbatim>\<open>--first-parent\<close> when \<open>fp\<close> holds; a call with \<^verbatim>\<open>--skip=s\<close> and
    \<^verbatim>\<open>--max-count=n\<close> answers the \<open>n\<close> entries that follow the first \<open>s\<close>;
  \<^item> \<open>logError fp n s\<close>: the message with which that call is rejected, if it is;
  \<^item> \<open>revListCount\<close>: the number printed by \<^verbatim>\<open>git rev-list --all --count\<close>, or its failure;
  \<^item> \<open>branchSummary\<close>: the entries of \<^verbatim>\<open>git.branch(['-a', '-v'])\<close> (key, name, commit,
    current), or its failure;
  \<^item> \<open>showRefTags\<close>: the text printed by \<^verbatim>\<open>git show-ref --tags\<close>, or its failure;
  \<^item> \<open>revparseHead\<close>: the text printed by \<^verbatim>\<open>git rev-parse --abbrev-ref HEAD\<close>, or its
    failure.
  The handle is a snapshot: the repository does not change while one request is served.
\<close>

record BranchSummaryBranch =
  bs_name :: string
  bs_commit :: string
  bs_current :: bool

record GitRepo =
  repoPath :: string
  checkIsRepo :: "string + bool"
  logAll :: "bool \<Rightarrow> LogEntry list"
  logError :: "bool \<Rightarrow> nat \<Rightarrow> nat \<Rightarrow> string option"
  revListCount :: "string + nat"
  branchSummary :: "string + (string \<times> BranchSummaryBranch) list"
  showRefTags :: "string + string"
  revparseHead :: "string + string"

definition git_log :: "GitRepo \<Rightarrow> bool \<Rightarrow> nat \<Rightarrow> nat \<Rightarrow> string + LogEntry list" where
  "git_log g fp n s =
     (case logError g fp n s of
        Some e \<Rightarrow> Inl e
      | None \<Rightarrow> Inr (take n (drop s (logAll g fp))))"

subsection \<open>\<^verbatim>\<open>GitService\<close>: validation, count, size classification\<close>

definition validateRepository :: "GitRepo \<Rightarrow> bool" where
  "validateRepository g = (case checkIsRepo g of Inl e \<Rightarrow> False | Inr b \<Rightarrow> b)"

definition getTotalCommitCount :: "GitRepo \<Rightarrow> nat" where
  "getTotalCommitCount g = (case revListCount g of Inl e \<Rightarrow> 0 | Inr n \<Rightarrow> n)"

definition LARGE_REPO_THRESHOLD :: nat where
  "LARGE_REPO_THRESHOLD = 10000"

definition HUGE_REPO_THRESHOLD :: nat where
  "HUGE_REPO_THRESHOLD = 100000"

definition getRepoStats :: "GitRepo \<Rightarrow> RepoStats" where
  "getRepoStats g =
     (let totalCommits = getTotalCommitCount g;
          recommendedMode =
            (if totalCommits > HUGE_REPO_THRESHOLD then Simplified
             else if totalCommits > LARGE_REPO_THRESHOLD then Paginated
             else Full)
      in \<lparr> totalCommits = totalCommits,
           isLargeRepo = (totalCommits > LARGE_REPO_THRESHOLD),
           recommendedMode = recommendedMode \<rparr>)"

subsection \<open>\<^verbatim>\<open>GitService\<close>: log entries to commits\<close>

definition parseRefPart :: "string \<Rightarrow> RefInfo list" where
  "parseRefPart part =
     (if startsWith part ''HEAD -> '' then
        [\<lparr> ref_name = replaceFirst ''HEAD -> '' [] part, ref_type = RefBranch, isHead = True \<rparr>]
      else if part = ''HEAD'' then []
      else if startsWith part ''tag: '' then
        [\<lparr> ref_name = replaceFirst ''tag: '' [] part, ref_type = RefTag, isHead = False \<rparr>]
      else if startsWith part ''origin/'' then
        [\<lparr> ref_name = part, ref_type = RefRemote, isHead = False \<rparr>]
      else if part \<noteq> [] then
        [\<lparr> ref_name = part, ref_type = RefBranch, isHead = False \<rparr>]
      else [])"

definition parseRefs :: "string \<Rightarrow> RefInfo list" where
  "parseRefs refsString =
     (if refsString = [] \<or> trim refsString = [] then []
      else concat (map parseRefPart (map trim (split_on CHR '','' refsString))))"

text \<open>The object built from one log entry, the same in every function that reads the log.\<close>

definition toCommit :: "LogEntry \<Rightarrow> Commit" where
  "toCommit entry =
     \<lparr> hash = le_hash entry,
       shortHash = le_shortHash entry,
       message = le_message entry,
       body = le_body entry,
       author = \<lparr> author_name = le_authorName entry, author_email = le_authorEmail entry \<rparr>,
       date = le_date entry,
       parents = (if le_parents entry \<noteq> []
                  then filter (\<lambda>p. p \<noteq> []) (split_on CHR '' '' (le_parents entry))
                  else []),
       refs = parseRefs (le_refs entry) \<rparr>"

subsection \<open>\<^verbatim>\<open>GitService\<close>: branches, tags, metadata\<close>

definition getBranches :: "GitRepo \<Rightarrow> string + Branch list" where
  "getBranches g =
     (case branchSummary g of
        Inl e \<Rightarrow> Inl e
      | Inr result \<Rightarrow>
          Inr (map (\<lambda>(name, data).
                 \<lparr> branch_name = bs_name data,
                   branch_commit = bs_commit data,
                   isRemote = startsWith name ''remotes/'',
                   branch_isHead = bs_current data \<rparr>) result))"

text \<open>One line of \<^verbatim>\<open>show-ref\<close>: \<^verbatim>\<open>const [commit, ref] = line.split(' ')\<close>; with no second
  part \<^verbatim>\<open>ref.replace\<close> throws, which \<open>getTags\<close> catches.\<close>

definition parseTagLine :: "string \<Rightarrow> Tag option" where
  "parseTagLine line =
     (case split_on CHR '' '' line of
        commit # ref # rest \<Rightarrow>
          Some \<lparr> tag_name = replaceFirst ''refs/tags/'' [] ref, tag_commit = commit \<rparr>
      | _ \<Rightarrow> None)"

definition getTags :: "GitRepo \<Rightarrow> Tag list" where
  "getTags g =
     (case showRefTags g of
        Inl e \<Rightarrow> []
      | Inr result \<Rightarrow>
          (case those (map parseTagLine
                        (filter (\<lambda>l. l \<noteq> []) (split_on (CHR 0x0A) (trim result)))) of
             None \<Rightarrow> []
           | Some ts \<Rightarrow> ts))"

definition getCurrentBranch :: "GitRepo \<Rightarrow> string" where
  "getCurrentBranch g = (case revparseHead g of Inl e \<Rightarrow> ''HEAD'' | Inr result \<Rightarrow> trim result)"

text \<open>\<^verbatim>\<open>repoPath.split('/').filter(Boolean).pop() || 'repository'\<close>\<close>

definition repoName :: "string \<Rightarrow> string" where
  "repoName p =
     (case filter (\<lambda>s. s \<noteq> []) (split_on CHR ''/'' p) of
        [] \<Rightarrow> ''repository''
      | ps \<Rightarrow> last ps)"

text \<open>Of the four promises joined by \<^verbatim>\<open>Promise.all\<close> only \<open>getBranches\<close> can reject: the
  other three catch their failures.\<close>

definition getRepositoryMetadata :: "GitRepo \<Rightarrow> string + RepositoryMetadata" where
  "getRepositoryMetadata g =
     (case getBranches g of
        Inl e \<Rightarrow> Inl e
      | Inr branches \<Rightarrow>
          Inr \<lparr> md_path = repoPath g,
                md_name = repoName (repoPath g),
                md_currentBranch = getCurrentBranch g,
                md_branches = branches,
                md_tags = getTags g,
                md_stats = getRepoStats g \<rparr>)"

subsection \<open>\<^verbatim>\<open>GitService.getCommitsPaginated\<close>\<close>

text \<open>The log is asked for \<open>maxCount + 1\<close> entries after \<open>skip\<close>; the answer is cut back to
  \<open>maxCount\<close>, and \<open>hasMore\<close> records whether the extra entry came.\<close>

text \<open>\<^verbatim>\<open>const { maxCount = 500, skip = 0, firstParent = false } = options;\<close>\<close>

definition maxCountOf :: "PaginationOptions \<Rightarrow> nat" where
  "maxCountOf options = (case maxCount options of None \<Rightarrow> 500 | Some m \<Rightarrow> m)"

definition skipOf :: "PaginationOptions \<Rightarrow> nat" where
  "skipOf options = (case skip options of None \<Rightarrow> 0 | Some s \<Rightarrow> s)"

definition firstParentOf :: "PaginationOptions \<Rightarrow> bool" where
  "firstParentOf options = (case firstParent options of None \<Rightarrow> False | Some b \<Rightarrow> b)"

definition getCommitsPaginated :: "GitRepo \<Rightarrow> PaginationOptions \<Rightarrow> string + PaginatedCommits" where
  "getCommitsPaginated g options =
     (case git_log g (firstParentOf options) (maxCountOf options + 1) (skipOf options) of
        Inl e \<Rightarrow> Inl e
      | Inr log_all \<Rightarrow>
          (let total' = getTotalCommitCount g;
               hasMore' = (length log_all > maxCountOf options);
               commits' = map toCommit (take (maxCountOf options) log_all)
           in Inr \<lparr> commits = commits', total = total', hasMore = hasMore' \<rparr>))"

subsection \<open>\<^verbatim>\<open>GitService.streamCommits\<close>\<close>

text \<open>
  The progress of a chunk is
  \<^verbatim>\<open>Math.min(100, Math.round(((skip + result.commits.length) / total) * 100))\<close>,
  computed on doubles. The two operands are integers (below \<open>2^53\<close>, so they are doubles as
  they stand); the quotient and the product are each rounded to the nearest double.

  A finite double is represented by a fraction: a pair of a numerator and a positive
  denominator. \<open>to_double p q\<close> is the double nearest to \<open>p / q\<close>: with \<open>e\<close> the binary
  exponent of \<open>p / q\<close> it rounds \<open>p / q * 2^(52 - e)\<close> to the nearest integer, the even one
  of two equally near, so that the significand has 53 bits. Overflow and subnormal numbers
  are left out: they do not arise from a quotient of two such integers or from its product
  with 100.
\<close>

text \<open>The integer nearest to \<open>p / q\<close> for \<open>q > 0\<close>, the even one of two equally near.\<close>

definition rhe_div :: "int \<Rightarrow> int \<Rightarrow> int" where
  "rhe_div p q =
     (let d = p div q; r = p mod q
      in if 2 * r < q then d else if q < 2 * r then d + 1 else if even d then d else d + 1)"

text \<open>The binary exponent of \<open>|p| / q\<close> for \<open>p \<noteq> 0\<close> and \<open>q > 0\<close>: the \<open>e\<close> with
  \<open>2^e \<le> |p| / q < 2^(e + 1)\<close>, found from the bit lengths of \<open>|p|\<close> and \<open>q\<close>.\<close>

definition exponent2 :: "int \<Rightarrow> int \<Rightarrow> int" where
  "exponent2 p q =
     (let e0 = bitlen \<bar>p\<bar> - bitlen q
      in if q * 2 ^ nat e0 \<le> \<bar>p\<bar> * 2 ^ nat (- e0) then e0 else e0 - 1)"

definition to_double :: "int \<Rightarrow> int \<Rightarrow> int \<times> int" where
  "to_double p q =
     (if p = 0 then (0, 1)
      else (let k = 52 - exponent2 p q
            in if 0 \<le> k then (rhe_div (p * 2 ^ nat k) q, 2 ^ nat k)
               else (rhe_div p (q * 2 ^ nat (- k)) * 2 ^ nat (- k), 1)))"

text \<open>\<open>a / b\<close> on two integers with \<open>b > 0\<close>, \<open>x * c\<close> on a double and an integer, and
  \<^verbatim>\<open>Math.round\<close>, which is \<open>\<lfloor>x + 1/2\<rfloor>\<close> computed exactly.\<close>

definition js_divide :: "int \<Rightarrow> int \<Rightarrow> int \<times> int" where
  "js_divide a b = to_double a b"

definition js_times :: "int \<times> int \<Rightarrow> int \<Rightarrow> int \<times> int" where
  "js_times x c = to_double (fst x * c) (snd x)"

definition Math_round :: "int \<times> int \<Rightarrow> int" where
  "Math_round x = (2 * fst x + snd x) div (2 * snd x)"

text \<open>\<^verbatim>\<open>Math.round((loaded / total) * 100)\<close> for \<open>total > 0\<close>.\<close>

definition round_percent :: "int \<Rightarrow> int \<Rightarrow> int" where
  "round_percent loaded tot = Math_round (js_times (js_divide loaded tot) 100)"

text \<open>
  The progress value is a JavaScript number: \<open>NaN\<close>, \<open>-Infinity\<close> or an integer. For
  \<open>total = 0\<close> the quotient is \<open>NaN\<close> when \<open>loaded = 0\<close>, and \<open>NaN\<close> passes through the
  product, \<^verbatim>\<open>Math.round\<close> and \<^verbatim>\<open>Math.min\<close>; it is \<open>Infinity\<close> when \<open>loaded > 0\<close>, which
  \<^verbatim>\<open>Math.min\<close> cuts to \<open>100\<close>; and it is \<open>-Infinity\<close> when \<open>loaded < 0\<close>, which stays. The
  number \<open>loaded = skip + result.commits.length\<close> is negative only when the offset is, which
  takes a negative chunk size.
\<close>

datatype js_number = NaN | NegInfinity | Num int

definition progressOf :: "int \<Rightarrow> nat \<Rightarrow> js_number" where
  "progressOf loaded tot =
     (if tot = 0 then (if loaded = 0 then NaN else if 0 < loaded then Num 100 else NegInfinity)
      else Num (min 100 (round_percent loaded (int tot))))"

record StreamChunk =
  chunk_commits :: "Commit list"
  progress :: js_number
  chunk_total :: nat

record StreamOptions =
  chunkSize :: "nat option"
  so_firstParent :: "bool option"

text \<open>
  The body of \<^verbatim>\<open>while (true)\<close>, from offset \<open>sk\<close> on. The result is the list of chunks the
  generator yields, in order, and how it ends: \<open>None\<close> when it returns after \<^verbatim>\<open>break\<close>,
  \<open>Some e\<close> when a page fetch throws \<open>e\<close> (the chunks before it have been yielded).
  The arguments \<open>cs\<close>, \<open>fp\<close>, \<open>tot\<close> and \<open>sk\<close> are the variables \<^verbatim>\<open>chunkSize\<close>,
  \<^verbatim>\<open>firstParent\<close>, \<^verbatim>\<open>total\<close> and \<^verbatim>\<open>skip\<close> of the generator.
\<close>

function streamLoop :: "GitRepo \<Rightarrow> nat \<Rightarrow> bool \<Rightarrow> nat \<Rightarrow> nat \<Rightarrow> StreamChunk list \<times> string option" where
  "streamLoop g cs fp tot sk =
     (case getCommitsPaginated g \<lparr> maxCount = Some cs, skip = Some sk, firstParent = Some fp \<rparr> of
        Inl e \<Rightarrow> ([], Some e)
      | Inr result \<Rightarrow>
          (let chunk = \<lparr> chunk_commits = commits result,
                         progress = progressOf (int (sk + length (commits result))) tot,
                         chunk_total = tot \<rparr>
           in if \<not> hasMore result \<or> length (commits result) = 0 then ([chunk], None)
              else (case streamLoop g cs fp tot (sk + cs) of
                      (chunks, outcome) \<Rightarrow> (chunk # chunks, outcome))))"
  by pat_completeness auto
termination
proof (relation "measure (\<lambda>(g, cs, fp, tot, sk). length (logAll g fp) - sk)")
  show "wf (measure (\<lambda>(g, cs, fp, tot, sk). length (logAll g fp) - sk))"
    by simp
next
  fix g cs fp tot sk result chunk
  assume fetch: "getCommitsPaginated g
            \<lparr> maxCount = Some cs, skip = Some sk, firstParent = Some fp \<rparr> = Inr result"
    and more: "\<not> (\<not> hasMore result \<or> length (commits result) = 0)"
  from fetch obtain log_all where
      log_all: "git_log g fp (cs + 1) sk = Inr log_all"
      and res: "result = \<lparr> commits = map toCommit (take cs log_all),
                           total = getTotalCommitCount g,
                           hasMore = (length log_all > cs) \<rparr>"
    by (auto simp: getCommitsPaginated_def maxCountOf_def skipOf_def firstParentOf_def Let_def
        split: sum.splits)
  from log_all have "log_all = take (cs + 1) (drop sk (logAll g fp))"
    by (auto simp: git_log_def split: option.splits)
  with res more have "cs < length (logAll g fp) - sk" and "0 < cs"
    by auto
  then show "((g, cs, fp, tot, sk + cs), (g, cs, fp, tot, sk))
      \<in> measure (\<lambda>(g, cs, fp, tot, sk). length (logAll g fp) - sk)"
    by simp
qed

text \<open>\<^verbatim>\<open>const { chunkSize = 500, firstParent = false } = options;\<close>\<close>

definition chunkSizeOf :: "StreamOptions \<Rightarrow> nat" where
  "chunkSizeOf options = (case chunkSize options of None \<Rightarrow> 500 | Some n \<Rightarrow> n)"

definition streamFirstParentOf :: "StreamOptions \<Rightarrow> bool" where
  "streamFirstParentOf options = (case so_firstParent options of None \<Rightarrow> False | Some b \<Rightarrow> b)"

definition streamCommits :: "GitRepo \<Rightarrow> StreamOptions \<Rightarrow> StreamChunk list \<times> string option" where
  "streamCommits g options =
     streamLoop g (chunkSizeOf options) (streamFirstParentOf options) (getTotalCommitCount g) 0"

subsection \<open>The service on any integer size\<close>

text \<open>
  The client and the defaults of the service pass non-negative sizes and offsets, for which
  the functions above are written. The route takes the chunk size from the query string,
  where \<^verbatim>\<open>parseInt\<close> lets a negative number through. The definitions of this subsection are
  the same functions on every integer size and offset, with what the runtime and git do with
  them:
  \<^item> \<^verbatim>\<open>simple-git\<close> passes \<^verbatim>\<open>--max-count\<close> only when the value is not 0, and git reads a
    negative \<^verbatim>\<open>--max-count\<close> as no limit and a negative \<^verbatim>\<open>--skip\<close> as none; a rejected call
    is found in \<open>logError\<close> under its limit and offset, with 0 for a value that git does not
    apply;
  \<^item> \<^verbatim>\<open>xs.slice(0, k)\<close> with a negative \<open>k\<close> drops the last \<open>-k\<close> elements;
  \<^item> the loop has no bound of its own, so it is run for a number of rounds: \<open>streamLoopZ n\<close>
    gives the chunks yielded during the first \<open>n\<close> rounds and how the generator stands after
    them: it has returned, it has thrown, or it is still \<open>Running\<close>.
  On non-negative sizes they agree with the functions above (lemmas
  \<open>getCommitsPaginatedZ_nat\<close> and \<open>streamLoopZ_nat\<close>).
\<close>

definition git_logZ :: "GitRepo \<Rightarrow> bool \<Rightarrow> int \<Rightarrow> int \<Rightarrow> string + LogEntry list" where
  "git_logZ g fp n s =
     (case logError g fp (nat n) (nat s) of
        Some e \<Rightarrow> Inl e
      | None \<Rightarrow>
          Inr (let rest = drop (nat s) (logAll g fp)
               in if 0 < n then take (nat n) rest else rest))"

definition slice0 :: "int \<Rightarrow> 'a list \<Rightarrow> 'a list" where
  "slice0 k xs = (if 0 \<le> k then take (nat k) xs else take (length xs - nat (- k)) xs)"

definition getCommitsPaginatedZ :: "GitRepo \<Rightarrow> int \<Rightarrow> int \<Rightarrow> bool \<Rightarrow> string + PaginatedCommits" where
  "getCommitsPaginatedZ g maxCount' skip' firstParent' =
     (case git_logZ g firstParent' (maxCount' + 1) skip' of
        Inl e \<Rightarrow> Inl e
      | Inr log_all \<Rightarrow>
          (let total' = getTotalCommitCount g;
               hasMore' = (int (length log_all) > maxCount');
               commits' = map toCommit (slice0 maxCount' log_all)
           in Inr \<lparr> commits = commits', total = total', hasMore = hasMore' \<rparr>))"

datatype StreamEnd = Returned | Threw string | Running

fun streamLoopZ ::
  "nat \<Rightarrow> GitRepo \<Rightarrow> int \<Rightarrow> bool \<Rightarrow> nat \<Rightarrow> int \<Rightarrow> StreamChunk list \<times> StreamEnd" where
  "streamLoopZ 0 g cs fp tot sk = ([], Running)"
| "streamLoopZ (Suc n) g cs fp tot sk =
     (case getCommitsPaginatedZ g cs sk fp of
        Inl e \<Rightarrow> ([], Threw e)
      | Inr result \<Rightarrow>
          (let chunk = \<lparr> chunk_commits = commits result,
                         progress = progressOf (sk + int (length (commits result))) tot,
                         chunk_total = tot \<rparr>
           in if \<not> hasMore result \<or> length (commits result) = 0 then ([chunk], Returned)
              else (case streamLoopZ n g cs fp tot (sk + cs) of
                      (chunks, ending) \<Rightarrow> (chunk # chunks, ending))))"

definition streamCommitsZ :: "nat \<Rightarrow> GitRepo \<Rightarrow> int \<Rightarrow> bool \<Rightarrow> StreamChunk list \<times> StreamEnd" where
  "streamCommitsZ n g chunkSize' firstParent' =
     streamLoopZ n g chunkSize' firstParent' (getTotalCommitCount g) 0"

subsection \<open>The route \<^verbatim>\<open>POST /repository/stream\<close>\<close>

text \<open>
  The request after the \<^verbatim>\<open>validatePath\<close> middleware: the repository that
  \<^verbatim>\<open>req.body.validatedPath\<close> names, the value of \<^verbatim>\<open>parseInt(req.query.chunkSize)\<close>
  (any integer, or \<open>None\<close> for \<open>NaN\<close>), and the raw \<^verbatim>\<open>req.query.firstParent\<close>.
  A digit string so long that \<^verbatim>\<open>parseInt\<close> answers \<open>Infinity\<close> has no value here.
  \<open>stream_route n\<close> is what the handler has answered once the loop of the generator has run
  for at most \<open>n\<close> rounds: a JSON body with a status; or the events of a stream that it has
  ended (\<^verbatim>\<open>res.end()\<close>); or the events written so far to a stream that is still open.
\<close>

record StreamRequest =
  validatedPath :: GitRepo
  query_chunkSize :: "int option"
  query_firstParent :: "string option"

datatype SSEvent =
    MetadataEvent RepositoryMetadata
  | CommitsEvent StreamChunk
  | CompleteEvent
  | ErrorEvent string

datatype Response =
    JsonError nat string
  | EventStream "SSEvent list"
  | OpenStream "SSEvent list"

text \<open>\<^verbatim>\<open>parseInt(req.query.chunkSize as string) || 500\<close> and
  \<^verbatim>\<open>req.query.firstParent === 'true'\<close>.\<close>

definition routeChunkSize :: "StreamRequest \<Rightarrow> int" where
  "routeChunkSize req =
     (case query_chunkSize req of
        None \<Rightarrow> 500
      | Some n \<Rightarrow> if n = 0 then 500 else n)"

definition routeFirstParent :: "StreamRequest \<Rightarrow> bool" where
  "routeFirstParent req = (query_firstParent req = Some ''true'')"

definition stream_route :: "nat \<Rightarrow> StreamRequest \<Rightarrow> Response" where
  "stream_route n req =
     (let g = validatedPath req
      in if \<not> validateRepository g then JsonError 400 ''Not a valid git repository''
         else (case getRepositoryMetadata g of
                 Inl e \<Rightarrow> EventStream [ErrorEvent e]
               | Inr metadata \<Rightarrow>
                   (case streamCommitsZ n g (routeChunkSize req) (routeFirstParent req) of
                      (chunks, Returned) \<Rightarrow>
                        EventStream (MetadataEvent metadata # map CommitsEvent chunks @ [CompleteEvent])
                    | (chunks, Threw e) \<Rightarrow>
                        EventStream (MetadataEvent metadata # map CommitsEvent chunks @ [ErrorEvent e])
                    | (chunks, Running) \<Rightarrow>
                        OpenStream (MetadataEvent metadata # map CommitsEvent chunks))))"

section \<open>Streaming consumer (\<^verbatim>\<open>repositoryStore.ts\<close>)\<close>

text \<open>
  The client's \<^verbatim>\<open>Repository\<close> (the repository view) and the store's state. The optional
  fields are options; \<open>abortStream\<close> is \<open>Some ()\<close> while the store holds an abort handle;
  \<open>loadingProgress\<close> holds \<open>Num (-1)\<close> for the indeterminate state.
\<close>

record Repository =
  view_path :: string
  view_name :: string
  view_currentBranch :: string
  view_commits :: "Commit list"
  view_branches :: "Branch list"
  view_tags :: "Tag list"
  view_stats :: "RepoStats option"
  loadedCommitCount :: "nat option"
  totalCommitCount :: "nat option"

record RepositoryState =
  repository :: "Repository option"
  isLoading :: bool
  loadingMessage :: string
  loadingProgress :: js_number
  error :: "string option"
  selectedCommit :: "Commit option"
  searchQuery :: string
  repoStats :: "RepoStats option"
  showLargeRepoWarning :: bool
  pendingPath :: "string option"
  loadMode :: LoadMode
  abortStream :: "unit option"

text \<open>
  The callbacks that \<open>loadRepoWithMode\<close> hands to \<open>streamRepository\<close> close over the
  buffer \<^verbatim>\<open>allCommits\<close>. A session is the store's state together with that buffer; each
  callback maps a session to the next one. \<open>fmt\<close> stands for \<^verbatim>\<open>toLocaleString()\<close>, which
  depends on the locale of the browser.
\<close>

type_synonym Session = "RepositoryState \<times> Commit list"

definition onMetadata :: "RepositoryMetadata \<Rightarrow> Session \<Rightarrow> Session" where
  "onMetadata metadata = (\<lambda>(st, allCommits).
     (st\<lparr> repository :=
            Some \<lparr> view_path = md_path metadata,
                   view_name = md_name metadata,
                   view_currentBranch = md_currentBranch metadata,
                   view_commits = [],
                   view_branches = md_branches metadata,
                   view_tags = md_tags metadata,
                   view_stats = Some (md_stats metadata),
                   loadedCommitCount = Some 0,
                   totalCommitCount = Some (totalCommits (md_stats metadata)) \<rparr>,
          loadingMessage := ''Loading commits...'' \<rparr>,
      allCommits))"

definition onCommits ::
  "(nat \<Rightarrow> string) \<Rightarrow> Commit list \<Rightarrow> js_number \<Rightarrow> nat \<Rightarrow> Session \<Rightarrow> Session" where
  "onCommits fmt cs prog tot = (\<lambda>(st, allCommits).
     (let allCommits' = allCommits @ cs
      in (st\<lparr> repository :=
                 (case repository st of
                    Some r \<Rightarrow> Some (r\<lparr> view_commits := allCommits',
                                       loadedCommitCount := Some (length allCommits'),
                                       totalCommitCount := Some tot \<rparr>)
                  | None \<Rightarrow> None),
               loadingProgress := prog,
               loadingMessage :=
                 ''Loaded '' @ fmt (length allCommits') @ '' of '' @ fmt tot @ '' commits...'' \<rparr>,
          allCommits')))"

definition onComplete :: "Session \<Rightarrow> Session" where
  "onComplete = (\<lambda>(st, allCommits).
     (st\<lparr> isLoading := False,
          loadingProgress := Num 100,
          loadingMessage := [],
          abortStream := None \<rparr>,
      allCommits))"

definition onError :: "string \<Rightarrow> Session \<Rightarrow> Session" where
  "onError error_message = (\<lambda>(st, allCommits).
     (st\<lparr> error := Some error_message,
          isLoading := False,
          loadingProgress := Num (- 1),
          loadingMessage := [],
          abortStream := None \<rparr>,
      allCommits))"

text \<open>A commits event handed to its callback, and the chunks of a stream consumed in order of
  arrival.\<close>

definition onChunk :: "(nat \<Rightarrow> string) \<Rightarrow> Session \<Rightarrow> StreamChunk \<Rightarrow> Session" where
  "onChunk fmt s c = onCommits fmt (chunk_commits c) (progress c) (chunk_total c) s"

definition consumeChunks :: "(nat \<Rightarrow> string) \<Rightarrow> StreamChunk list \<Rightarrow> Session \<Rightarrow> Session" where
  "consumeChunks fmt chunks s = foldl (onChunk fmt) s chunks"

text \<open>
  The synchronous part of \<open>loadRepoWithMode\<close> for a streaming mode (\<open>paginated\<close> or
  \<open>simplified\<close>): the store after its \<^verbatim>\<open>set\<close> calls, holding the abort handle of the new
  stream, and the empty buffer (\<^verbatim>\<open>const allCommits: Commit[] = []\<close>). The events arrive
  after it.
\<close>

definition startStreaming :: "LoadMode \<Rightarrow> RepositoryState \<Rightarrow> Session" where
  "startStreaming mode st =
     (st\<lparr> isLoading := True,
          error := None,
          selectedCommit := None,
          loadMode := mode,
          showLargeRepoWarning := False,
          pendingPath := None,
          loadingMessage := ''Starting stream...'',
          loadingProgress := Num 5,
          abortStream := Some () \<rparr>,
      [])"

section \<open>Graph layout engine (\<^verbatim>\<open>layoutEngine.ts\<close>)\<close>

text \<open>Coordinates, sizes and spacings are JavaScript numbers, here \<^typ>\<open>real\<close>.\<close>

datatype Direction = TB | LR

record LayoutOptions =
  direction :: Direction
  nodeSpacing :: real
  rankSpacing :: real

record GraphSettings =
  compactMode :: bool
  colorByAuthor :: bool
  highlightedCommits :: "string set"

record Position =
  pos_x :: real
  pos_y :: real

record CommitNodeData =
  nd_commit :: Commit
  nd_color :: string
  isCompact :: bool
  isHighlighted :: bool

record CommitNode =
  node_id :: string
  node_type :: string
  position :: Position
  node_data :: CommitNodeData

record EdgeStyle =
  stroke :: string
  strokeWidth :: nat

record EdgeData =
  isMerge :: bool
  ed_color :: string

record CommitEdge =
  edge_id :: string
  source :: string
  target :: string
  edge_type :: string
  style :: EdgeStyle
  edge_data :: EdgeData

record LayoutResult =
  nodes :: "CommitNode list"
  edges :: "CommitEdge list"

definition NODE_WIDTH_NORMAL :: real where "NODE_WIDTH_NORMAL = 280"
definition NODE_HEIGHT_NORMAL :: real where "NODE_HEIGHT_NORMAL = 100"
definition NODE_WIDTH_COMPACT :: real where "NODE_WIDTH_COMPACT = 200"
definition NODE_HEIGHT_COMPACT :: real where "NODE_HEIGHT_COMPACT = 60"

subsection \<open>The graph handed to the layout library\<close>

text \<open>
  \<^verbatim>\<open>dagre.graphlib.Graph\<close> as far as \<open>layoutCommitGraph\<close> fills it: the graph label, the
  nodes with their labels and the edges, each in insertion order. \<open>setNode\<close> on a node that
  exists replaces its label; \<open>setEdge\<close> on an edge that exists keeps it (every edge has the
  default label \<^verbatim>\<open>{}\<close>). \<open>setEdge\<close> is only called between nodes that were set before.
\<close>

record GraphLabel =
  rankdir :: Direction
  nodesep :: real
  ranksep :: real
  marginx :: real
  marginy :: real

record NodeLabel =
  width :: real
  height :: real

record DagreGraph =
  graph_label :: "GraphLabel option"
  g_nodes :: "(string \<times> NodeLabel) list"
  g_edges :: "(string \<times> string) list"

definition newGraph :: DagreGraph where
  "newGraph = \<lparr> graph_label = None, g_nodes = [], g_edges = [] \<rparr>"

definition setGraph :: "DagreGraph \<Rightarrow> GraphLabel \<Rightarrow> DagreGraph" where
  "setGraph g l = g\<lparr> graph_label := Some l \<rparr>"

definition setNode :: "DagreGraph \<Rightarrow> string \<Rightarrow> NodeLabel \<Rightarrow> DagreGraph" where
  "setNode g v l =
     (if v \<in> set (map fst (g_nodes g))
      then g\<lparr> g_nodes := map (\<lambda>(k, l'). if k = v then (k, l) else (k, l')) (g_nodes g) \<rparr>
      else g\<lparr> g_nodes := g_nodes g @ [(v, l)] \<rparr>)"

definition setEdge :: "DagreGraph \<Rightarrow> string \<Rightarrow> string \<Rightarrow> DagreGraph" where
  "setEdge g v w =
     (if (v, w) \<in> set (g_edges g) then g
      else g\<lparr> g_edges := g_edges g @ [(v, w)] \<rparr>)"

text \<open>
  What \<open>layoutCommitGraph\<close> imports: the two colour assignments of
  \<^verbatim>\<open>./branchColors\<close> (each gives a \<^verbatim>\<open>Map\<close> from hash to colour) and \<^verbatim>\<open>dagre.layout\<close>,
  after which \<^verbatim>\<open>g.node(v)\<close> carries the centre of node \<open>v\<close>. Their code is not part of the
  files verified here, so the engine takes them as parameters.
\<close>

record LayoutEnv =
  assignBranchColors :: "Commit list \<Rightarrow> (string \<rightharpoonup> string)"
  assignAuthorColors :: "Commit list \<Rightarrow> (string \<rightharpoonup> string)"
  dagre_layout :: "DagreGraph \<Rightarrow> string \<Rightarrow> Position"

text \<open>\<^verbatim>\<open>colorMap.get(h) || '#888'\<close>: the default also replaces an empty colour.\<close>

definition colorOf :: "(string \<rightharpoonup> string) \<Rightarrow> string \<Rightarrow> string" where
  "colorOf colorMap h =
     (case colorMap h of
        None \<Rightarrow> ''#888''
      | Some c \<Rightarrow> if c = [] then ''#888'' else c)"

subsection \<open>\<open>layoutCommitGraph\<close>\<close>

text \<open>The edge object pushed for the parent at index \<open>i\<close> of a commit.\<close>

definition commitEdge :: "(string \<rightharpoonup> string) \<Rightarrow> Commit \<Rightarrow> nat \<Rightarrow> CommitEdge" where
  "commitEdge colorMap commit i =
     (let parentHash = parents commit ! i
      in \<lparr> edge_id = hash commit @ ''-'' @ parentHash,
           source = hash commit,
           target = parentHash,
           edge_type = ''smoothstep'',
           style = \<lparr> stroke = colorOf colorMap (hash commit), strokeWidth = 2 \<rparr>,
           edge_data = \<lparr> isMerge = (i > 0), ed_color = colorOf colorMap (hash commit) \<rparr> \<rparr>)"

text \<open>The inner loop \<^verbatim>\<open>for (let i = 0; i < commit.parents.length; i++)\<close> from index \<open>i\<close> on,
  on the graph and the edge list built so far. The index stays below the length of
  \<open>parents\<close>, so \<open>parents commit ! i\<close> is always an element of the list.\<close>

function parentLoop ::
  "string set \<Rightarrow> (string \<rightharpoonup> string) \<Rightarrow> Commit \<Rightarrow> nat \<Rightarrow> DagreGraph \<times> CommitEdge list
     \<Rightarrow> DagreGraph \<times> CommitEdge list" where
  "parentLoop commitSet colorMap commit i (g, es) =
     (if i < length (parents commit) then
        (let parentHash = parents commit ! i
         in if parentHash \<in> commitSet then
              parentLoop commitSet colorMap commit (i + 1)
                (setEdge g (hash commit) parentHash, es @ [commitEdge colorMap commit i])
            else parentLoop commitSet colorMap commit (i + 1) (g, es))
      else (g, es))"
  by pat_completeness auto
termination
  by (relation "measure (\<lambda>(commitSet, colorMap, commit, i, acc). length (parents commit) - i)") auto

definition layoutCommitGraph ::
  "LayoutEnv \<Rightarrow> Commit list \<Rightarrow> LayoutOptions \<Rightarrow> GraphSettings \<Rightarrow> LayoutResult" where
  "layoutCommitGraph env cs options graphSettings =
     (if length cs = 0 then \<lparr> nodes = [], edges = [] \<rparr>
      else
        (let nodeWidth = (if compactMode graphSettings then NODE_WIDTH_COMPACT else NODE_WIDTH_NORMAL);
             nodeHeight = (if compactMode graphSettings then NODE_HEIGHT_COMPACT else NODE_HEIGHT_NORMAL);
             nodeSpacing' = (if compactMode graphSettings then nodeSpacing options * (6 / 10)
                             else nodeSpacing options);
             rankSpacing' = (if compactMode graphSettings then rankSpacing options * (6 / 10)
                             else rankSpacing options);
             g0 = setGraph newGraph
                    \<lparr> rankdir = direction options, nodesep = nodeSpacing', ranksep = rankSpacing',
                      marginx = 50, marginy = 50 \<rparr>;
             colorMap = (if colorByAuthor graphSettings then assignAuthorColors env cs
                         else assignBranchColors env cs);
             commitSet = set (map hash cs);
             g1 = foldl (\<lambda>g commit. setNode g (hash commit) \<lparr> width = nodeWidth, height = nodeHeight \<rparr>)
                    g0 cs;
             (g2, es) = foldl (\<lambda>acc commit. parentLoop commitSet colorMap commit 0 acc) (g1, []) cs;
             laid = dagre_layout env g2;
             ns = map (\<lambda>commit.
                    (let nodeWithPosition = laid (hash commit)
                     in \<lparr> node_id = hash commit,
                          node_type = ''commit'',
                          position = \<lparr> pos_x = pos_x nodeWithPosition - nodeWidth / 2,
                                       pos_y = pos_y nodeWithPosition - nodeHeight / 2 \<rparr>,
                          node_data = \<lparr> nd_commit = commit,
                                        nd_color = colorOf colorMap (hash commit),
                                        isCompact = compactMode graphSettings,
                                        isHighlighted = (hash commit \<in> highlightedCommits graphSettings) \<rparr> \<rparr>))
                    cs
         in \<lparr> nodes = ns, edges = es \<rparr>))"

section \<open>Example repositories\<close>

text \<open>
  Concrete inputs on which the statements below are evaluated. \<open>mergeRepo\<close> is a history
  with one merge: \<open>M\<close> merges \<open>B\<close> into \<open>A\<close>, both children of the root \<open>R\<close>, and the only
  ref points to \<open>M\<close>; following first parents leaves \<open>B\<close> out. \<open>emptyRepo\<close> is a repository
  without commits. \<open>brokenRefsRepo\<close> fails when its branches are listed;
  \<open>flakyRepo\<close> fails when the log is read from offset 2; \<open>unreadableRepo\<close> fails whenever
  the log is read.
\<close>

definition mkEntry :: "string \<Rightarrow> string \<Rightarrow> LogEntry" where
  "mkEntry h ps =
     \<lparr> le_hash = h, le_shortHash = take 7 h, le_message = ''commit '' @ h, le_body = [],
       le_authorName = ''dev'', le_authorEmail = ''dev@example.org'',
       le_date = ''2024-01-01T00:00:00+00:00'', le_parents = ps, le_refs = [] \<rparr>"

definition mkRepo :: "LogEntry list \<Rightarrow> LogEntry list \<Rightarrow> GitRepo" where
  "mkRepo all_entries fp_entries =
     \<lparr> repoPath = ''/srv/repos/demo'',
       checkIsRepo = Inr True,
       logAll = (\<lambda>fp. if fp then fp_entries else all_entries),
       logError = (\<lambda>fp n s. None),
       revListCount = Inr (length all_entries),
       branchSummary = Inr [],
       showRefTags = Inr [],
       revparseHead = Inr ''main'' \<rparr>"

definition mergeRepo :: GitRepo where
  "mergeRepo =
     mkRepo [mkEntry ''M'' ''A B'', mkEntry ''B'' ''R'', mkEntry ''A'' ''R'', mkEntry ''R'' []]
            [mkEntry ''M'' ''A B'', mkEntry ''A'' ''R'', mkEntry ''R'' []]"

definition emptyRepo :: GitRepo where
  "emptyRepo = mkRepo [] []"

definition brokenRefsRepo :: GitRepo where
  "brokenRefsRepo = mergeRepo\<lparr> branchSummary := Inl ''fatal: bad object refs/heads/main'' \<rparr>"

definition flakyRepo :: GitRepo where
  "flakyRepo = mergeRepo\<lparr> logError := (\<lambda>fp n s. if s = 2 then Some ''git log failed'' else None) \<rparr>"

definition unreadableRepo :: GitRepo where
  "unreadableRepo = mergeRepo\<lparr> logError := (\<lambda>fp n s. Some ''fatal: bad object HEAD'') \<rparr>"

text \<open>The initial state of the store, a decimal rendering of numbers for the loading message,
  and stand-ins for the colour assignment and the layout library: every commit gets the same
  colour, and the nodes are stacked in insertion order, 180 apart.\<close>

definition initialState :: RepositoryState where
  "initialState =
     \<lparr> repository = None, isLoading = False, loadingMessage = [], loadingProgress = Num (- 1),
       error = None, selectedCommit = None, searchQuery = [], repoStats = None,
       showLargeRepoWarning = False, pendingPath = None, loadMode = Full, abortStream = None \<rparr>"

fun showNat :: "nat \<Rightarrow> string" where
  "showNat n =
     (if n < 10 then [char_of (48 + n)]
      else showNat (n div 10) @ [char_of (48 + n mod 10)])"

definition demoEnv :: LayoutEnv where
  "demoEnv =
     \<lparr> assignBranchColors = (\<lambda>cs. map_of (map (\<lambda>c. (hash c, ''#3b82f6'')) cs)),
       assignAuthorColors = (\<lambda>cs. map_of (map (\<lambda>c. (hash c, ''#ef4444'')) cs)),
       dagre_layout = (\<lambda>g v.
          \<lparr> pos_x = 190,
            pos_y = 100 + 180 * real (length (takeWhile (\<lambda>(k, l). k \<noteq> v) (g_nodes g))) \<rparr>) \<rparr>"

definition demoOptions :: LayoutOptions where
  "demoOptions = \<lparr> direction = TB, nodeSpacing = 40, rankSpacing = 80 \<rparr>"

definition demoSettings :: GraphSettings where
  "demoSettings = \<lparr> compactMode = False, colorByAuthor = False, highlightedCommits = {} \<rparr>"

definition demoMetadata :: RepositoryMetadata where
  "demoMetadata =
     \<lparr> md_path = ''/srv/repos/demo'', md_name = ''demo'', md_currentBranch = ''main'',
       md_branches = [], md_tags = [],
       md_stats = \<lparr> totalCommits = 4, isLargeRepo = False, recommendedMode = Full \<rparr> \<rparr>"

definition demoChunks :: "StreamChunk list" where
  "demoChunks =
     [\<lparr> chunk_commits = map toCommit [mkEntry ''M'' ''A B'', mkEntry ''B'' ''R''],
        progress = Num 50, chunk_total = 4 \<rparr>,
      \<lparr> chunk_commits = map toCommit [mkEntry ''A'' ''R'', mkEntry ''R'' []],
        progress = Num 100, chunk_total = 4 \<rparr>]"

definition linearRepo :: "nat \<Rightarrow> GitRepo" where
  "linearRepo n =
     mkRepo (map (\<lambda>i. mkEntry (replicate (Suc i) CHR ''c'') []) [0..<n])
            (map (\<lambda>i. mkEntry (replicate (Suc i) CHR ''c'') []) [0..<n])"

section \<open>Predicates of the specification\<close>

text \<open>Order of two finite progress values; a comparison with \<open>NaN\<close> is false.\<close>

fun js_le :: "js_number \<Rightarrow> js_number \<Rightarrow> bool" where
  "js_le (Num a) (Num b) = (a \<le> b)"
| "js_le _ _ = False"

text \<open>A progress value in the range 0 to 100.\<close>

fun in_percent_range :: "js_number \<Rightarrow> bool" where
  "in_percent_range (Num p) = (0 \<le> p \<and> p \<le> 100)"
| "in_percent_range NaN = False"
| "in_percent_range NegInfinity = False"

text \<open>The number that a fraction stands for, and the rounding of a real number to the nearest
  integer, the even one of two equally near: what \<open>rhe_div\<close> computes on a quotient.\<close>

definition frac_val :: "int \<times> int \<Rightarrow> real" where
  "frac_val x = real_of_int (fst x) / real_of_int (snd x)"

definition rhe :: "real \<Rightarrow> int" where
  "rhe u =
     (if u - of_int \<lfloor>u\<rfloor> < 1 / 2 then \<lfloor>u\<rfloor>
      else if 1 / 2 < u - of_int \<lfloor>u\<rfloor> then \<lfloor>u\<rfloor> + 1
      else if even \<lfloor>u\<rfloor> then \<lfloor>u\<rfloor> else \<lfloor>u\<rfloor> + 1)"

definition session_ok :: "Session \<Rightarrow> bool" where
  "session_ok s =
     (case repository (fst s) of
        None \<Rightarrow> False
      | Some r \<Rightarrow> view_commits r = snd s \<and> loadedCommitCount r = Some (length (snd s)))"

text \<open>The event order of the streaming protocol: one metadata event, then commits events, then
  one terminal event (complete or error) and nothing after it.\<close>

fun commits_then_terminal :: "SSEvent list \<Rightarrow> bool" where
  "commits_then_terminal [CompleteEvent] = True"
| "commits_then_terminal [ErrorEvent e] = True"
| "commits_then_terminal (CommitsEvent c # es) = commits_then_terminal es"
| "commits_then_terminal _ = False"

fun stream_protocol :: "SSEvent list \<Rightarrow> bool" where
  "stream_protocol (MetadataEvent m # es) = commits_then_terminal es"
| "stream_protocol _ = False"

text \<open>The edges the specification asks of the layout, in the order of the commit list: for each
  commit one edge per parent index whose hash is among the hashes of the list.\<close>

definition edgesOf :: "(string \<rightharpoonup> string) \<Rightarrow> Commit list \<Rightarrow> CommitEdge list" where
  "edgesOf cm cs =
     concat (map (\<lambda>c. map (commitEdge cm c)
                        (filter (\<lambda>j. parents c ! j \<in> set (map hash cs)) [0..<length (parents c)]))
              cs)"

section \<open>Size classifier\<close>

text \<open>
  C1. For every commit count \<open>t \<ge> 0\<close> answered by the repository, \<open>getRepoStats\<close> reports
  that count, sets \<open>isLargeRepo\<close> exactly when \<open>t > 10000\<close>, and recommends
  \<open>simplified\<close> when \<open>t > 100000\<close>, \<open>paginated\<close> when \<open>10000 < t \<le> 100000\<close>, and
  \<open>full\<close> otherwise.
\<close>

theorem getRepoStats_classification:
  fixes t :: nat
  shows "totalCommits (getRepoStats (g\<lparr>revListCount := Inr t\<rparr>)) = t
       \<and> isLargeRepo (getRepoStats (g\<lparr>revListCount := Inr t\<rparr>)) = (10000 < t)
       \<and> recommendedMode (getRepoStats (g\<lparr>revListCount := Inr t\<rparr>)) =
           (if 100000 < t then Simplified else if 10000 < t then Paginated else Full)"
  by (simp add: getRepoStats_def getTotalCommitCount_def
      LARGE_REPO_THRESHOLD_def HUGE_REPO_THRESHOLD_def Let_def)

text \<open>The three scenarios of the specification: 500, 50000 and 200000 commits.\<close>

theorem getRepoStats_classification_witness:
  "(isLargeRepo (getRepoStats (emptyRepo\<lparr> revListCount := Inr 500 \<rparr>)),
    recommendedMode (getRepoStats (emptyRepo\<lparr> revListCount := Inr 500 \<rparr>))) = (False, Full)
   \<and> (isLargeRepo (getRepoStats (emptyRepo\<lparr> revListCount := Inr 50000 \<rparr>)),
    recommendedMode (getRepoStats (emptyRepo\<lparr> revListCount := Inr 50000 \<rparr>))) = (True, Paginated)
   \<and> (isLargeRepo (getRepoStats (emptyRepo\<lparr> revListCount := Inr 200000 \<rparr>)),
    recommendedMode (getRepoStats (emptyRepo\<lparr> revListCount := Inr 200000 \<rparr>))) = (True, Simplified)"
  using getRepoStats_classification [where g = emptyRepo and t = 500]
    getRepoStats_classification [where g = emptyRepo and t = 50000]
    getRepoStats_classification [where g = emptyRepo and t = 200000]
  by simp

section \<open>Paginated fetch\<close>

lemma page_opts [simp]:
  "maxCountOf \<lparr> maxCount = Some m, skip = Some s, firstParent = Some b \<rparr> = m"
  "skipOf \<lparr> maxCount = Some m, skip = Some s, firstParent = Some b \<rparr> = s"
  "firstParentOf \<lparr> maxCount = Some m, skip = Some s, firstParent = Some b \<rparr> = b"
  by (simp_all add: maxCountOf_def skipOf_def firstParentOf_def)

text \<open>The fetch returns exactly when the log call is not rejected, and then its three fields
  are determined by the enumeration.\<close>

lemma getCommitsPaginated_Inr:
  assumes "logError g (firstParentOf opts) (maxCountOf opts + 1) (skipOf opts) = None"
  shows "getCommitsPaginated g opts =
           Inr \<lparr> commits = map toCommit
                             (take (maxCountOf opts) (drop (skipOf opts) (logAll g (firstParentOf opts)))),
                 total = getTotalCommitCount g,
                 hasMore = (maxCountOf opts < length (logAll g (firstParentOf opts)) - skipOf opts) \<rparr>"
  using assms
  by (auto simp: getCommitsPaginated_def git_log_def Let_def take_take min_def)

lemma getCommitsPaginated_Inl:
  assumes "logError g (firstParentOf opts) (maxCountOf opts + 1) (skipOf opts) = Some e"
  shows "getCommitsPaginated g opts = Inl e"
  using assms by (simp add: getCommitsPaginated_def git_log_def)

lemma mergeRepo_no_logError [simp]: "logError mergeRepo fp n s = None"
  by (simp add: mergeRepo_def mkRepo_def)

lemma mergeRepo_logAll [simp]:
  "logAll mergeRepo False =
     [mkEntry ''M'' ''A B'', mkEntry ''B'' ''R'', mkEntry ''A'' ''R'', mkEntry ''R'' []]"
  "logAll mergeRepo True = [mkEntry ''M'' ''A B'', mkEntry ''A'' ''R'', mkEntry ''R'' []]"
  by (simp_all add: mergeRepo_def mkRepo_def)

lemma mergeRepo_count [simp]: "getTotalCommitCount mergeRepo = 4"
  by (simp add: getTotalCommitCount_def mergeRepo_def mkRepo_def)

lemma hash_toCommit [simp]: "hash (toCommit (mkEntry h ps)) = h"
  by (simp add: toCommit_def mkEntry_def)

text \<open>
  C9. Whenever the log call of a fetch is not rejected, \<open>getCommitsPaginated\<close> returns; the
  returned list has at most \<open>maxCount\<close> commits (it is the first \<open>maxCount\<close> entries that
  follow the first \<open>skip\<close> entries of the enumeration selected by \<open>firstParent\<close>), and
  \<open>hasMore\<close> holds exactly when that enumeration has strictly more than \<open>maxCount\<close>
  entries after \<open>skip\<close>.
\<close>

theorem getCommitsPaginated_overfetch:
  assumes "logError g (firstParentOf opts) (maxCountOf opts + 1) (skipOf opts) = None"
  shows "\<exists>r. getCommitsPaginated g opts = Inr r
           \<and> length (commits r) \<le> maxCountOf opts
           \<and> commits r = map toCommit
                 (take (maxCountOf opts) (drop (skipOf opts) (logAll g (firstParentOf opts))))
           \<and> hasMore r = (maxCountOf opts < length (drop (skipOf opts) (logAll g (firstParentOf opts))))"
  using getCommitsPaginated_Inr [OF assms] by simp

theorem getCommitsPaginated_overfetch_witness:
  "logError mergeRepo False (2 + 1) 1 = None
   \<and> (\<exists>r. getCommitsPaginated mergeRepo \<lparr> maxCount = Some 2, skip = Some 1, firstParent = Some False \<rparr> = Inr r
          \<and> length (commits r) \<le> 2
          \<and> map hash (commits r) = [''B'', ''A'']
          \<and> hasMore r)"
proof -
  let ?opts = "\<lparr> maxCount = Some 2, skip = Some 1, firstParent = Some False \<rparr>"
  have h: "logError mergeRepo (firstParentOf ?opts) (maxCountOf ?opts + 1) (skipOf ?opts) = None"
    by simp
  from getCommitsPaginated_overfetch [OF h] obtain r where
    "getCommitsPaginated mergeRepo ?opts = Inr r" "length (commits r) \<le> 2"
    "commits r = map toCommit (take 2 (drop 1 (logAll mergeRepo False)))"
    "hasMore r = (2 < length (drop 1 (logAll mergeRepo False)))"
    by auto
  then show ?thesis by simp
qed

text \<open>
  C7 at a first-parent fetch. \<open>total\<close> is always the count of all commits
  (\<^verbatim>\<open>rev-list --all --count\<close>), while with \<open>firstParent\<close> the page is read from the
  first-parent enumeration, which is shorter on a history with a merge. On \<open>mergeRepo\<close> a
  first-parent fetch with \<open>maxCount = 3\<close> and \<open>skip = 0\<close> returns the whole first-parent
  history, so \<open>hasMore\<close> is false, and yet \<open>skip + commits.length = 3 < 4 = total\<close>: the
  response does not satisfy \<open>hasMore = (skip + commits.length < total)\<close>.
\<close>

theorem getCommitsPaginated_hasMore_first_parent:
  "\<exists>r. getCommitsPaginated mergeRepo \<lparr> maxCount = Some 3, skip = Some 0, firstParent = Some True \<rparr> = Inr r
       \<and> length (commits r) = 3 \<and> total r = 4 \<and> \<not> hasMore r
       \<and> hasMore r \<noteq> (0 + length (commits r) < total r)"
  by (simp add: getCommitsPaginated_Inr)

text \<open>
  The relation holds where the reported total is the length of the enumeration that the fetch
  reads, as it is without \<open>firstParent\<close> on a repository whose count succeeds; a fetch with
  \<open>skip = total\<close> then returns no commits and \<open>hasMore = false\<close>. The same total is the
  divisor of the progress of a first-parent stream, which therefore ends below 100 (lemma
  \<open>mergeRepo_first_parent_stream\<close>).
\<close>

lemma getCommitsPaginated_hasMore_total:
  assumes "logError g (firstParentOf opts) (maxCountOf opts + 1) (skipOf opts) = None"
    and "getTotalCommitCount g = length (logAll g (firstParentOf opts))"
  shows "\<exists>r. getCommitsPaginated g opts = Inr r
           \<and> hasMore r = (skipOf opts + length (commits r) < total r)
           \<and> (skipOf opts = total r \<longrightarrow> commits r = [] \<and> \<not> hasMore r)"
  using getCommitsPaginated_Inr [OF assms(1)] assms(2) by (auto simp: min_def)

lemma getCommitsPaginated_hasMore_all_parents:
  "\<exists>r. getCommitsPaginated mergeRepo \<lparr> maxCount = Some 3, skip = Some 0, firstParent = Some False \<rparr> = Inr r
       \<and> length (commits r) = 3 \<and> total r = 4 \<and> hasMore r
       \<and> hasMore r = (0 + length (commits r) < total r)"
  by (simp add: getCommitsPaginated_Inr)

section \<open>Chunked streaming\<close>

declare streamLoop.simps [simp del]

lemma stream_opts [simp]:
  "chunkSizeOf \<lparr> chunkSize = Some n, so_firstParent = Some b \<rparr> = n"
  "streamFirstParentOf \<lparr> chunkSize = Some n, so_firstParent = Some b \<rparr> = b"
  by (simp_all add: chunkSizeOf_def streamFirstParentOf_def)

text \<open>One round of the loop goes one of three ways: the fetch is rejected; the fetch returns the
  last page (or an empty one); the fetch returns a full page and the loop goes on.\<close>

lemma streamLoop_fail:
  assumes "logError g fp (cs + 1) sk = Some e"
  shows "streamLoop g cs fp tot sk = ([], Some e)"
  using getCommitsPaginated_Inl [of g "\<lparr> maxCount = Some cs, skip = Some sk, firstParent = Some fp \<rparr>" e]
    assms
  by (simp add: streamLoop.simps [of g cs fp tot sk])

lemma streamLoop_last:
  assumes "logError g fp (cs + 1) sk = None"
    and "\<not> cs < length (logAll g fp) - sk \<or> cs = 0"
  shows "streamLoop g cs fp tot sk =
           ([\<lparr> chunk_commits = map toCommit (take cs (drop sk (logAll g fp))),
                progress = progressOf (int (sk + min (length (logAll g fp) - sk) cs)) tot,
                chunk_total = tot \<rparr>], None)"
  using getCommitsPaginated_Inr [of g "\<lparr> maxCount = Some cs, skip = Some sk, firstParent = Some fp \<rparr>"]
    assms
  by (auto simp add: streamLoop.simps [of g cs fp tot sk] Let_def)

lemma streamLoop_more:
  assumes "logError g fp (cs + 1) sk = None"
    and "cs < length (logAll g fp) - sk" and "0 < cs"
  shows "streamLoop g cs fp tot sk =
           (\<lparr> chunk_commits = map toCommit (take cs (drop sk (logAll g fp))),
              progress = progressOf (int (sk + cs)) tot,
              chunk_total = tot \<rparr> # fst (streamLoop g cs fp tot (sk + cs)),
            snd (streamLoop g cs fp tot (sk + cs)))"
  using getCommitsPaginated_Inr [of g "\<lparr> maxCount = Some cs, skip = Some sk, firstParent = Some fp \<rparr>"]
    assms
  by (auto simp add: streamLoop.simps [of g cs fp tot sk] Let_def min_def split: prod.splits)

lemma streamLoop_cases:
  obtains (fail) e where "logError g fp (cs + 1) sk = Some e"
  | (last) "logError g fp (cs + 1) sk = None" "\<not> cs < length (logAll g fp) - sk \<or> cs = 0"
  | (more) "logError g fp (cs + 1) sk = None" "cs < length (logAll g fp) - sk" "0 < cs"
  by (cases "logError g fp (cs + 1) sk") auto

subsection \<open>Rounding to doubles\<close>

text \<open>\<open>rhe_div\<close> rounds the quotient to the nearest integer, ties to even; that rounding is
  monotone and keeps integer bounds.\<close>

lemma rhe_div_rhe:
  assumes "0 < q"
  shows "rhe_div p q = rhe (of_int p / of_int q)"
proof -
  let ?u = "real_of_int p / real_of_int q"
  have fl: "\<lfloor>?u\<rfloor> = p div q"
    by (simp add: floor_divide_of_int_eq)
  have "real_of_int p = real_of_int q * real_of_int (p div q) + real_of_int (p mod q)"
    by (metis of_int_add of_int_mult mult_div_mod_eq)
  then have fr: "?u - of_int (p div q) = real_of_int (p mod q) / real_of_int q"
    using assms by (simp add: field_simps)
  have lt: "(real_of_int (p mod q) / real_of_int q < 1 / 2) = (2 * (p mod q) < q)"
    using assms by (simp add: field_simps) linarith
  have gt: "(1 / 2 < real_of_int (p mod q) / real_of_int q) = (q < 2 * (p mod q))"
    using assms by (simp add: field_simps) linarith
  show ?thesis
    unfolding rhe_def rhe_div_def Let_def fl fr lt gt by simp
qed

lemma rhe_floor: "\<lfloor>u\<rfloor> \<le> rhe u"
  by (simp add: rhe_def)

lemma rhe_ceil: "rhe u \<le> \<lfloor>u\<rfloor> + 1"
  by (simp add: rhe_def)

lemma rhe_mono:
  assumes "u \<le> v"
  shows "rhe u \<le> rhe v"
proof (cases "\<lfloor>u\<rfloor> < \<lfloor>v\<rfloor>")
  case True
  then show ?thesis
    using rhe_ceil [of u] rhe_floor [of v] by linarith
next
  case False
  with floor_mono [OF assms] have eq: "\<lfloor>u\<rfloor> = \<lfloor>v\<rfloor>" by simp
  with assms have "u - of_int \<lfloor>u\<rfloor> \<le> v - of_int \<lfloor>v\<rfloor>" by simp
  then show ?thesis
    unfolding rhe_def eq by auto
qed

lemma rhe_ge:
  assumes "of_int n \<le> u"
  shows "n \<le> rhe u"
proof -
  from assms have "n \<le> \<lfloor>u\<rfloor>" by (simp add: le_floor_iff)
  with rhe_floor [of u] show ?thesis by linarith
qed

lemma rhe_le:
  assumes "u \<le> of_int m"
  shows "rhe u \<le> m"
proof (cases "u = of_int m")
  case True
  then show ?thesis by (simp add: rhe_def)
next
  case False
  with assms have "u < of_int m" by simp
  then have "\<lfloor>u\<rfloor> < m" by (simp add: floor_less_iff)
  with rhe_ceil [of u] show ?thesis by linarith
qed

text \<open>\<open>exponent2\<close> is the binary exponent of the quotient.\<close>

lemma powi_nat: "0 \<le> e \<Longrightarrow> (2::real) powi e = 2 ^ nat e"
  by (simp add: power_int_def)

lemma bitlen_real_bounds:
  assumes "0 < p"
  shows "(2::real) powi (bitlen p - 1) \<le> real_of_int p" and "real_of_int p < 2 powi (bitlen p)"
proof -
  have b: "1 \<le> bitlen p"
    using assms by (simp add: bitlen_ge_iff_power)
  from bitlen_bounds [OF assms] have i1: "2 ^ nat (bitlen p - 1) \<le> p" and i2: "p < 2 ^ nat (bitlen p)"
    by simp_all
  from i1 have "real_of_int (2 ^ nat (bitlen p - 1)) \<le> real_of_int p"
    by (rule of_int_le_iff [THEN iffD2])
  then show "(2::real) powi (bitlen p - 1) \<le> real_of_int p"
    using b by (simp add: powi_nat)
  from i2 have "real_of_int p < real_of_int (2 ^ nat (bitlen p))"
    by (rule of_int_less_iff [THEN iffD2])
  then show "real_of_int p < 2 powi (bitlen p)"
    using b by (simp add: powi_nat)
qed

lemma powi_split: "(2::real) powi (a - b) * 2 powi b = 2 powi a"
  by (simp flip: power_int_add)


lemma exponent2_test:
  assumes "0 < q"
  shows "(q * 2 ^ nat e0 \<le> p * 2 ^ nat (- e0)) = (2 powi e0 \<le> real_of_int p / real_of_int q)"
proof (cases "0 \<le> e0")
  case True
  then have pw: "(2::real) powi e0 = 2 ^ nat e0" by (rule powi_nat)
  from True have n: "nat (- e0) = 0" by simp
  have "(q * 2 ^ nat e0 \<le> p) = (real_of_int (q * 2 ^ nat e0) \<le> real_of_int p)"
    by (rule of_int_le_iff [symmetric])
  also have "\<dots> = (2 ^ nat e0 * real_of_int q \<le> real_of_int p)"
    by (simp add: mult.commute)
  also have "\<dots> = (2 ^ nat e0 \<le> real_of_int p / real_of_int q)"
    using assms by (simp add: pos_le_divide_eq)
  finally show ?thesis by (simp add: pw n)
next
  case False
  then have n: "nat e0 = 0" by simp
  from False have "(2::real) powi e0 = inverse 2 ^ nat (- e0)" by (simp add: power_int_def)
  then have pw: "(2::real) powi e0 = 1 / 2 ^ nat (- e0)"
    by (simp add: power_one_over)
  have "(q \<le> p * 2 ^ nat (- e0)) = (real_of_int q \<le> real_of_int (p * 2 ^ nat (- e0)))"
    by (rule of_int_le_iff [symmetric])
  also have "\<dots> = (real_of_int q \<le> real_of_int p * 2 ^ nat (- e0))"
    by simp
  also have "\<dots> = (1 / 2 ^ nat (- e0) \<le> real_of_int p / real_of_int q)"
    using assms by (simp add: field_simps)
  finally show ?thesis by (simp add: pw n)
qed


lemma exponent2_bounds:
  assumes "0 < p" "0 < q"
  shows "2 powi (exponent2 p q) \<le> real_of_int p / real_of_int q"
    and "real_of_int p / real_of_int q < 2 powi (exponent2 p q + 1)"
proof -
  let ?x = "real_of_int p / real_of_int q"
  define e0 where "e0 = bitlen p - bitlen q"
  have qpos: "0 < real_of_int q" using assms by simp
  note P = bitlen_real_bounds [OF assms(1)]
  note Q = bitlen_real_bounds [OF assms(2)]
  have up: "?x < 2 powi (e0 + 1)"
  proof -
    have "2 powi (e0 + 1) * 2 powi (bitlen q - 1) = (2::real) powi (bitlen p)"
      by (simp add: e0_def flip: power_int_add)
    with P(2) have "real_of_int p < 2 powi (e0 + 1) * 2 powi (bitlen q - 1)"
      by simp
    also have "\<dots> \<le> 2 powi (e0 + 1) * real_of_int q"
      by (rule mult_left_mono [OF Q(1)]) (simp add: zero_less_power_int less_imp_le)
    finally show ?thesis using qpos by (simp add: pos_divide_less_eq)
  qed
  have lo: "2 powi (e0 - 1) \<le> ?x"
  proof -
    have "2 powi (e0 - 1) * real_of_int q \<le> 2 powi (e0 - 1) * 2 powi (bitlen q)"
      by (rule mult_left_mono [OF less_imp_le [OF Q(2)]]) (simp add: zero_less_power_int less_imp_le)
    also have "\<dots> = 2 powi (bitlen p - 1)"
      by (simp add: e0_def flip: power_int_add)
    also have "\<dots> \<le> real_of_int p" by (rule P(1))
    finally show ?thesis using qpos by (simp add: pos_le_divide_eq)
  qed
  have e: "exponent2 p q = (if 2 powi e0 \<le> ?x then e0 else e0 - 1)"
    using assms exponent2_test [OF assms(2), of e0 p]
    by (simp add: exponent2_def e0_def Let_def)
  show "2 powi (exponent2 p q) \<le> ?x"
    using lo by (simp add: e)
  show "?x < 2 powi (exponent2 p q + 1)"
    using up by (simp add: e)
qed

text \<open>The value of \<open>to_double\<close>: the quotient scaled to a 53-bit significand, rounded, and
  scaled back. It stays within the binade of the quotient, and it is monotone.\<close>

lemma powi_neg_nat: "e < 0 \<Longrightarrow> (2::real) powi e = 1 / 2 ^ nat (- e)"
  by (simp add: power_int_def power_one_over)

lemma to_double_val:
  assumes "0 < p" "0 < q"
  shows "frac_val (to_double p q) =
           real_of_int (rhe (real_of_int p / real_of_int q * 2 powi (52 - exponent2 p q)))
             * 2 powi (exponent2 p q - 52)"
    and "0 < snd (to_double p q)"
proof -
  define k where "k = 52 - exponent2 p q"
  have mk: "exponent2 p q - 52 = - k" by (simp add: k_def)
  show "0 < snd (to_double p q)"
    using assms by (simp add: to_double_def Let_def)
  show "frac_val (to_double p q) =
           real_of_int (rhe (real_of_int p / real_of_int q * 2 powi (52 - exponent2 p q)))
             * 2 powi (exponent2 p q - 52)"
  proof (cases "0 \<le> k")
    case True
    then have pw: "(2::real) powi k = 2 ^ nat k" by (rule powi_nat)
    have pm: "(2::real) powi (- k) = 1 / 2 ^ nat k"
      by (simp add: power_int_minus pw inverse_eq_divide)
    have td: "to_double p q = (rhe_div (p * 2 ^ nat k) q, 2 ^ nat k)"
      using assms True by (simp add: to_double_def Let_def k_def)
    have "rhe_div (p * 2 ^ nat k) q = rhe (real_of_int (p * 2 ^ nat k) / real_of_int q)"
      by (rule rhe_div_rhe [OF assms(2)])
    also have "real_of_int (p * 2 ^ nat k) / real_of_int q = real_of_int p / real_of_int q * 2 powi k"
      by (simp add: pw)
    finally show ?thesis
      unfolding mk by (simp add: td frac_val_def pm flip: k_def)
  next
    case False
    then have neg: "k < 0" by simp
    have pw: "(2::real) powi k = 1 / 2 ^ nat (- k)" by (rule powi_neg_nat [OF neg])
    have pm: "(2::real) powi (- k) = 2 ^ nat (- k)"
      using neg by (simp add: powi_nat)
    have td: "to_double p q = (rhe_div p (q * 2 ^ nat (- k)) * 2 ^ nat (- k), 1)"
      using assms False by (simp add: to_double_def Let_def k_def)
    have qq: "0 < q * 2 ^ nat (- k)" using assms by simp
    have "rhe_div p (q * 2 ^ nat (- k)) = rhe (real_of_int p / real_of_int (q * 2 ^ nat (- k)))"
      by (rule rhe_div_rhe [OF qq])
    also have "real_of_int p / real_of_int (q * 2 ^ nat (- k)) = real_of_int p / real_of_int q * 2 powi k"
      by (simp add: pw)
    finally show ?thesis
      unfolding mk by (simp add: td frac_val_def pm flip: k_def)
  qed
qed

lemma two_powi_pos: "0 < (2::real) powi e"
  by (simp add: zero_less_power_int)

lemma powi_join: "(2::real) powi a * 2 powi (e - a) = 2 powi e"
  by (simp flip: power_int_add)

lemma powi_join1: "(2::real) powi (a + 1) * 2 powi (e - a) = 2 powi (e + 1)"
proof -
  have "(2::real) powi (a + 1) * 2 powi (e - a) = 2 powi ((a + 1) + (e - a))"
    by (rule power_int_add [symmetric]) simp
  also have "\<dots> = 2 powi (e + 1)"
    by (rule arg_cong [where f = "\<lambda>n. 2 powi n"]) simp
  finally show ?thesis .
qed

lemma to_double_range:
  assumes "0 < p" "0 < q"
  shows "2 powi (exponent2 p q) \<le> frac_val (to_double p q)"
    and "frac_val (to_double p q) \<le> 2 powi (exponent2 p q + 1)"
proof -
  let ?e = "exponent2 p q"
  let ?x = "real_of_int p / real_of_int q"
  let ?u = "?x * 2 powi (52 - ?e)"
  let ?s = "(2::real) powi (?e - 52)"
  note xb = exponent2_bounds [OF assms]
  have s0: "0 \<le> ?s" by (simp add: less_imp_le two_powi_pos)
  have c52: "real_of_int (2 ^ 52) = (2::real) powi 52" by simp
  have c53: "real_of_int (2 ^ 53) = (2::real) powi (52 + 1)" by simp
  have "2 powi ?e * 2 powi (52 - ?e) \<le> ?u"
    by (rule mult_right_mono [OF xb(1)]) (simp add: less_imp_le two_powi_pos)
  then have lo: "real_of_int (2 ^ 52) \<le> ?u"
    unfolding c52 powi_join .
  have "?u \<le> 2 powi (?e + 1) * 2 powi (52 - ?e)"
    by (rule mult_right_mono [OF less_imp_le [OF xb(2)]]) (simp add: less_imp_le two_powi_pos)
  then have hi: "?u \<le> real_of_int (2 ^ 53)"
    unfolding c53 powi_join1 .
  have v: "frac_val (to_double p q) = real_of_int (rhe ?u) * ?s"
    by (rule to_double_val(1) [OF assms])
  have "real_of_int (2 ^ 52) \<le> real_of_int (rhe ?u)"
    by (rule of_int_le_iff [THEN iffD2], rule rhe_ge [OF lo])
  then have "real_of_int (2 ^ 52) * ?s \<le> real_of_int (rhe ?u) * ?s"
    by (rule mult_right_mono [OF _ s0])
  then show "2 powi ?e \<le> frac_val (to_double p q)"
    unfolding v c52 powi_join .
  have "real_of_int (rhe ?u) \<le> real_of_int (2 ^ 53)"
    by (rule of_int_le_iff [THEN iffD2], rule rhe_le [OF hi])
  then have "real_of_int (rhe ?u) * ?s \<le> real_of_int (2 ^ 53) * ?s"
    by (rule mult_right_mono [OF _ s0])
  then show "frac_val (to_double p q) \<le> 2 powi (?e + 1)"
    unfolding v c53 powi_join1 .
qed

lemma to_double_mono:
  assumes "0 < p" "0 < q" "0 < p'" "0 < q'"
    and le: "real_of_int p / real_of_int q \<le> real_of_int p' / real_of_int q'"
  shows "frac_val (to_double p q) \<le> frac_val (to_double p' q')"
proof -
  define e where "e = exponent2 p q"
  define e' where "e' = exponent2 p' q'"
  let ?x = "real_of_int p / real_of_int q" and ?y = "real_of_int p' / real_of_int q'"
  note X = exponent2_bounds [OF assms(1,2), folded e_def]
  note Y = exponent2_bounds [OF assms(3,4), folded e'_def]
  have ee: "e \<le> e'"
  proof (rule ccontr)
    assume "\<not> e \<le> e'"
    then have "e' + 1 \<le> e" by simp
    then have "(2::real) powi (e' + 1) \<le> 2 powi e"
      by (rule power_int_increasing) simp
    with Y(2) X(1) le show False by linarith
  qed
  show ?thesis
  proof (cases "e = e'")
    case True
    have "rhe (?x * 2 powi (52 - e)) \<le> rhe (?y * 2 powi (52 - e))"
      by (rule rhe_mono, rule mult_right_mono [OF le]) (simp add: less_imp_le two_powi_pos)
    then have "real_of_int (rhe (?x * 2 powi (52 - e))) * 2 powi (e - 52)
        \<le> real_of_int (rhe (?y * 2 powi (52 - e))) * 2 powi (e - 52)"
      by (intro mult_right_mono) (simp_all add: less_imp_le two_powi_pos)
    then show ?thesis
      using to_double_val(1) [OF assms(1,2)] to_double_val(1) [OF assms(3,4)] True
      by (simp add: e_def e'_def)
  next
    case False
    with ee have "e + 1 \<le> e'" by simp
    then have "(2::real) powi (e + 1) \<le> 2 powi e'"
      by (rule power_int_increasing) simp
    with to_double_range(2) [OF assms(1,2)] to_double_range(1) [OF assms(3,4)]
    show ?thesis by (simp add: e_def e'_def)
  qed
qed

text \<open>Hence the rounded percentage is not negative for a non-negative count and does not
  decrease when the count grows.\<close>

lemma rhe_div_nonneg: "0 \<le> p \<Longrightarrow> 0 < q \<Longrightarrow> 0 \<le> rhe_div p q"
  by (simp add: rhe_div_def Let_def pos_imp_zdiv_nonneg_iff)

lemma to_double_nonneg:
  assumes "0 \<le> p" "0 < q"
  shows "0 \<le> fst (to_double p q)" and "0 < snd (to_double p q)"
  using assms by (auto simp: to_double_def Let_def intro!: rhe_div_nonneg mult_nonneg_nonneg)

lemma frac_val_nonneg: "0 \<le> fst x \<Longrightarrow> 0 < snd x \<Longrightarrow> 0 \<le> frac_val x"
  by (simp add: frac_val_def)

lemma to_double_mono0:
  assumes "0 \<le> p" "0 < q" "0 \<le> p'" "0 < q'"
    and le: "real_of_int p / real_of_int q \<le> real_of_int p' / real_of_int q'"
  shows "frac_val (to_double p q) \<le> frac_val (to_double p' q')"
proof (cases "p = 0")
  case True
  then have "frac_val (to_double p q) = 0"
    by (simp add: to_double_def frac_val_def)
  with frac_val_nonneg [OF to_double_nonneg [OF assms(3,4)]] show ?thesis by simp
next
  case False
  with assms(1) have p: "0 < p" by simp
  with assms(2) have "0 < real_of_int p / real_of_int q" by simp
  with le have "0 < real_of_int p' / real_of_int q'" by linarith
  with assms(4) have "0 < p'"
    by (simp add: zero_less_divide_iff)
  with p assms(2,4) le show ?thesis
    by (intro to_double_mono)
qed

lemma Math_round_floor:
  assumes "0 < snd x"
  shows "Math_round x = \<lfloor>frac_val x + 1 / 2\<rfloor>"
proof -
  have "frac_val x + 1 / 2 = real_of_int (2 * fst x + snd x) / real_of_int (2 * snd x)"
    using assms by (simp add: frac_val_def field_simps)
  then show ?thesis
    unfolding Math_round_def by (simp only: floor_divide_of_int_eq)
qed

lemma round_percent_mono:
  assumes "0 \<le> a" "a \<le> b" "0 < t"
  shows "round_percent a t \<le> round_percent b t"
proof -
  let ?da = "to_double a t" and ?db = "to_double b t"
  have b0: "0 \<le> b" using assms by simp
  note na = to_double_nonneg [OF assms(1,3)]
  note nb = to_double_nonneg [OF b0 assms(3)]
  have "real_of_int a / real_of_int t \<le> real_of_int b / real_of_int t"
    using assms by (simp add: divide_right_mono)
  then have d: "frac_val ?da \<le> frac_val ?db"
    by (rule to_double_mono0 [OF assms(1,3) b0 assms(3)])
  have "frac_val ?da * 100 \<le> frac_val ?db * 100"
    using d by simp
  then have "real_of_int (fst ?da * 100) / real_of_int (snd ?da)
          \<le> real_of_int (fst ?db * 100) / real_of_int (snd ?db)"
    by (simp add: frac_val_def)
  then have m: "frac_val (to_double (fst ?da * 100) (snd ?da))
          \<le> frac_val (to_double (fst ?db * 100) (snd ?db))"
    using na nb by (intro to_double_mono0) simp_all
  have "snd (to_double (fst ?da * 100) (snd ?da)) > 0" "snd (to_double (fst ?db * 100) (snd ?db)) > 0"
    using na nb by (simp_all add: to_double_nonneg)
  then show ?thesis
    using m by (simp add: round_percent_def js_times_def js_divide_def Math_round_floor floor_mono)
qed

lemma round_percent_nonneg:
  assumes "0 \<le> a" "0 < t"
  shows "0 \<le> round_percent a t"
proof -
  let ?da = "to_double a t"
  note na = to_double_nonneg [OF assms]
  have "0 \<le> fst ?da * 100" using na by simp
  note nm = to_double_nonneg [OF this na(2)]
  show ?thesis
    using nm by (simp add: round_percent_def js_times_def js_divide_def Math_round_def pos_imp_zdiv_nonneg_iff)
qed

text \<open>Evaluation of the percentage on numerals. At 23 of 40 the quotient \<open>0.575\<close> is not a
  double; the product of the nearest double with 100 rounds to \<open>57.49999999999999\<close>, so the
  code reports 57 where exact arithmetic would give 58.\<close>

lemmas round_eval =
  round_percent_def Math_round_def js_times_def js_divide_def to_double_def exponent2_def
  rhe_div_def compute_bitlen Let_def

lemma round_percent_23_40: "round_percent 23 40 = 57"
  by (simp add: round_eval)

subsection \<open>The progress value\<close>

lemma progressOf_range: "0 \<le> a \<Longrightarrow> 0 < tot \<Longrightarrow> in_percent_range (progressOf a tot)"
  using round_percent_nonneg [of a "int tot"] by (simp add: progressOf_def)

lemma progressOf_mono:
  "0 \<le> a \<Longrightarrow> a \<le> b \<Longrightarrow> 0 < tot \<Longrightarrow> js_le (progressOf a tot) (progressOf b tot)"
  using round_percent_mono [of a b "int tot"] by (simp add: progressOf_def)

lemma js_le_trans: "js_le a b \<Longrightarrow> js_le b c \<Longrightarrow> js_le a c"
  by (cases a; cases b; cases c) auto

text \<open>With a positive total every progress value of the stream lies between 0 and 100, and the
  values never decrease: a chunk that is not the last one is full, so the offset of the next
  fetch is the number of commits already sent.\<close>

lemma streamLoop_progress:
  "0 < tot \<Longrightarrow>
     (\<forall>c \<in> set (fst (streamLoop g cs fp tot sk)).
         in_percent_range (progress c) \<and> js_le (progressOf (int sk) tot) (progress c))
     \<and> sorted_wrt js_le (map progress (fst (streamLoop g cs fp tot sk)))"
proof (induction g cs fp tot sk rule: streamLoop.induct)
  case (1 g cs fp tot sk)
  note pos = \<open>0 < tot\<close>
  show ?case
  proof (cases rule: streamLoop_cases [of g fp cs sk])
    case (fail e)
    then show ?thesis by (simp add: streamLoop_fail)
  next
    case last
    have r: "in_percent_range (progressOf (int (sk + min (length (logAll g fp) - sk) cs)) tot)"
      using pos by (intro progressOf_range) auto
    have m: "js_le (progressOf (int sk) tot)
               (progressOf (int (sk + min (length (logAll g fp) - sk) cs)) tot)"
      using pos by (intro progressOf_mono) auto
    show ?thesis
      using r m by (simp add: streamLoop_last [OF last])
  next
    case more
    let ?opts = "\<lparr> maxCount = Some cs, skip = Some sk, firstParent = Some fp \<rparr>"
    let ?r = "\<lparr> commits = map toCommit (take cs (drop sk (logAll g fp))),
                 total = getTotalCommitCount g,
                 hasMore = (cs < length (logAll g fp) - sk) \<rparr>"
    have fetch: "getCommitsPaginated g ?opts = Inr ?r"
      using getCommitsPaginated_Inr [of g ?opts] more(1) by simp
    have cont: "\<not> (\<not> hasMore ?r \<or> length (commits ?r) = 0)"
      using more by (simp add: min_def)
    note IH = "1.IH" [OF fetch refl cont pos]
    have step: "js_le (progressOf (int sk) tot) (progressOf (int (sk + cs)) tot)"
      using pos by (intro progressOf_mono) auto
    have rest: "\<forall>c \<in> set (fst (streamLoop g cs fp tot (sk + cs))).
          js_le (progressOf (int (sk + cs)) tot) (progress c)"
      using IH by blast
    show ?thesis
      using IH step rest pos progressOf_range [of "int (sk + cs)" tot]
      by (auto simp add: streamLoop_more [OF more] intro: js_le_trans)
  qed
qed

lemma streamCommits_progress_positive_total:
  assumes "0 < getTotalCommitCount g"
  shows "(\<forall>c \<in> set (fst (streamCommits g opts)). in_percent_range (progress c))
       \<and> sorted_wrt js_le (map progress (fst (streamCommits g opts)))"
  using streamLoop_progress [OF assms, of g "chunkSizeOf opts" "streamFirstParentOf opts" 0]
  by (simp add: streamCommits_def)

text \<open>A stream with a positive chunk size that ends without an error has sent, in order, every
  commit of the enumeration from its offset on.\<close>

lemma streamLoop_concat:
  "0 < cs \<Longrightarrow> snd (streamLoop g cs fp tot sk) = None \<Longrightarrow>
     concat (map chunk_commits (fst (streamLoop g cs fp tot sk))) = map toCommit (drop sk (logAll g fp))"
proof (induction g cs fp tot sk rule: streamLoop.induct)
  case (1 g cs fp tot sk)
  show ?case
  proof (cases rule: streamLoop_cases [of g fp cs sk])
    case (fail e)
    with "1.prems" show ?thesis by (simp add: streamLoop_fail)
  next
    case last
    with "1.prems" show ?thesis by (simp add: streamLoop_last [OF last])
  next
    case more
    let ?opts = "\<lparr> maxCount = Some cs, skip = Some sk, firstParent = Some fp \<rparr>"
    let ?r = "\<lparr> commits = map toCommit (take cs (drop sk (logAll g fp))),
                 total = getTotalCommitCount g,
                 hasMore = (cs < length (logAll g fp) - sk) \<rparr>"
    have fetch: "getCommitsPaginated g ?opts = Inr ?r"
      using getCommitsPaginated_Inr [of g ?opts] more(1) by simp
    have cont: "\<not> (\<not> hasMore ?r \<or> length (commits ?r) = 0)"
      using more by (simp add: min_def)
    from "1.prems" have "snd (streamLoop g cs fp tot (sk + cs)) = None"
      by (simp add: streamLoop_more [OF more])
    with "1.IH" [OF fetch refl cont] "1.prems"(1)
    have "concat (map chunk_commits (fst (streamLoop g cs fp tot (sk + cs))))
            = map toCommit (drop (sk + cs) (logAll g fp))"
      by simp
    moreover have "take cs (drop sk (logAll g fp)) @ drop (sk + cs) (logAll g fp) = drop sk (logAll g fp)"
      by (metis add.commute append_take_drop_id drop_drop)
    ultimately show ?thesis
      by (simp add: streamLoop_more [OF more] flip: map_append)
  qed
qed

subsection \<open>The service on any integer size\<close>

text \<open>On a non-negative size and offset the functions on integers are the functions of the
  service, and the loop ends within as many rounds as the enumeration has entries, plus one.\<close>

lemma getCommitsPaginatedZ_nat:
  "getCommitsPaginatedZ g (int m) (int s) fp =
     getCommitsPaginated g \<lparr> maxCount = Some m, skip = Some s, firstParent = Some fp \<rparr>"
proof -
  have n: "nat (int m + 1) = m + 1"
    by simp
  show ?thesis
    unfolding getCommitsPaginatedZ_def getCommitsPaginated_def git_logZ_def git_log_def slice0_def n
    by (simp add: Let_def split: option.splits)
qed

lemma streamLoopZ_nat:
  "length (logAll g fp) - sk < n \<Longrightarrow>
     streamLoopZ n g (int cs) fp tot (int sk) =
       (fst (streamLoop g cs fp tot sk),
        case snd (streamLoop g cs fp tot sk) of None \<Rightarrow> Returned | Some e \<Rightarrow> Threw e)"
proof (induction n arbitrary: sk)
  case 0
  then show ?case by simp
next
  case (Suc n)
  let ?opts = "\<lparr> maxCount = Some cs, skip = Some sk, firstParent = Some fp \<rparr>"
  show ?case
  proof (cases rule: streamLoop_cases [of g fp cs sk])
    case (fail e)
    then have "getCommitsPaginated g ?opts = Inl e"
      using getCommitsPaginated_Inl [of g ?opts e] by simp
    then show ?thesis
      by (simp add: getCommitsPaginatedZ_nat streamLoop_fail [OF fail])
  next
    case last
    have fetch: "getCommitsPaginated g ?opts =
        Inr \<lparr> commits = map toCommit (take cs (drop sk (logAll g fp))),
              total = getTotalCommitCount g,
              hasMore = (cs < length (logAll g fp) - sk) \<rparr>"
      using getCommitsPaginated_Inr [of g ?opts] last(1) by simp
    have i: "int sk + int (min (length (logAll g fp) - sk) cs)
               = int (sk + min (length (logAll g fp) - sk) cs)"
      by simp
    show ?thesis
      using last(2)
      by (auto simp add: getCommitsPaginatedZ_nat fetch streamLoop_last [OF last] i
          simp del: of_nat_add of_nat_min)
  next
    case more
    have fetch: "getCommitsPaginated g ?opts =
        Inr \<lparr> commits = map toCommit (take cs (drop sk (logAll g fp))),
              total = getTotalCommitCount g,
              hasMore = (cs < length (logAll g fp) - sk) \<rparr>"
      using getCommitsPaginated_Inr [of g ?opts] more(1) by simp
    have fuel: "length (logAll g fp) - (sk + cs) < n"
      using Suc.prems more by simp
    have i: "int sk + int cs = int (sk + cs)"
      by simp
    have m: "min (length (logAll g fp) - sk) cs = cs"
      using more by simp
    show ?thesis
      using more(2,3)
      by (simp add: getCommitsPaginatedZ_nat fetch streamLoop_more [OF more] i m
          Suc.IH [OF fuel] del: of_nat_add)
  qed
qed

text \<open>Whatever the size, a round whose fetch is not rejected yields a chunk.\<close>

lemma streamLoopZ_first_chunk:
  "getCommitsPaginatedZ g cs sk fp = Inr r \<Longrightarrow> fst (streamLoopZ (Suc n) g cs fp tot sk) \<noteq> []"
  by (simp add: Let_def split: prod.splits)

text \<open>On a negative size the loop does not end when no fetch is rejected and the enumeration
  has more than \<open>-chunkSize\<close> entries: every page is the whole enumeration without its last
  \<open>-chunkSize\<close> entries, \<open>hasMore\<close> holds, and the offset stays below 0. After \<open>n\<close> rounds
  the generator has yielded \<open>n\<close> chunks and is still running.\<close>

lemma streamLoopZ_negative_size:
  "cs < 0 \<Longrightarrow> sk \<le> 0 \<Longrightarrow> (\<forall>m s. logError g fp m s = None) \<Longrightarrow>
   nat (- cs) < length (logAll g fp) \<Longrightarrow>
     snd (streamLoopZ n g cs fp tot sk) = Running \<and> length (fst (streamLoopZ n g cs fp tot sk)) = n"
proof (induction n arbitrary: sk)
  case 0
  show ?case by simp
next
  case (Suc n)
  have fetch: "getCommitsPaginatedZ g cs sk fp =
      Inr \<lparr> commits = map toCommit (take (length (logAll g fp) - nat (- cs)) (logAll g fp)),
            total = getTotalCommitCount g, hasMore = True \<rparr>"
    using Suc.prems by (simp add: getCommitsPaginatedZ_def git_logZ_def slice0_def Let_def)
  have next_sk: "sk + cs \<le> 0"
    using Suc.prems by simp
  note IH = Suc.IH [OF Suc.prems(1) next_sk Suc.prems(3) Suc.prems(4)]
  show ?case
    using Suc.prems(4) IH by (auto simp add: fetch split: prod.splits)
qed

subsection \<open>The first chunk\<close>

lemma emptyRepo_simps [simp]:
  "logError emptyRepo fp n s = None" "logAll emptyRepo fp = []" "getTotalCommitCount emptyRepo = 0"
  by (simp_all add: emptyRepo_def mkRepo_def getTotalCommitCount_def)

lemma linearRepo_simps [simp]:
  "logError (linearRepo n) fp m s = None"
  "logAll (linearRepo n) fp = map (\<lambda>i. mkEntry (replicate (Suc i) CHR ''c'') []) [0..<n]"
  "getTotalCommitCount (linearRepo n) = n"
  by (simp_all add: linearRepo_def mkRepo_def getTotalCommitCount_def)

lemma unreadableRepo_simps [simp]:
  "logError unreadableRepo fp n s = Some ''fatal: bad object HEAD''"
  by (simp add: unreadableRepo_def)




subsection \<open>Progress on a repository without commits\<close>

text \<open>
  C4 at a repository without commits, streamed with the default options: the only chunk has
  an empty batch and total 0, and its progress is
  \<^verbatim>\<open>Math.min(100, Math.round((0 / 0) * 100))\<close>, that is \<open>NaN\<close>, which is not a value
  between 0 and 100. (With a positive total the range and the monotonicity hold: lemma
  \<open>streamCommits_progress_positive_total\<close>.)
\<close>

theorem streamCommits_progress_empty_repo:
  "\<exists>c. streamCommits emptyRepo \<lparr> chunkSize = None, so_firstParent = None \<rparr> = ([c], None)
      \<and> chunk_commits c = [] \<and> chunk_total c = 0
      \<and> progress c = NaN \<and> \<not> in_percent_range (progress c)"
  by (simp add: streamCommits_def chunkSizeOf_def streamFirstParentOf_def streamLoop_last progressOf_def)

text \<open>The scenario of the specification: 2437 commits streamed in chunks of 1000 arrive as
  three chunks of 1000, 1000 and 437 commits with progress 41, 82 and 100.\<close>

lemma streamCommits_scenario_2437:
  "map (\<lambda>c. (length (chunk_commits c), progress c, chunk_total c))
       (fst (streamCommits (linearRepo 2437) \<lparr> chunkSize = Some 1000, so_firstParent = Some False \<rparr>))
     = [(1000, Num 41, 2437), (1000, Num 82, 2437), (437, Num 100, 2437)]
   \<and> snd (streamCommits (linearRepo 2437) \<lparr> chunkSize = Some 1000, so_firstParent = Some False \<rparr>) = None"
proof -
  have a: "streamLoop (linearRepo 2437) 1000 False 2437 2000 =
      ([\<lparr> chunk_commits = map toCommit (take 1000 (drop 2000 (logAll (linearRepo 2437) False))),
           progress = Num 100, chunk_total = 2437 \<rparr>], None)"
    by (simp add: streamLoop_last progressOf_def round_eval)
  have b: "streamLoop (linearRepo 2437) 1000 False 2437 1000 =
      (\<lparr> chunk_commits = map toCommit (take 1000 (drop 1000 (logAll (linearRepo 2437) False))),
           progress = Num 82, chunk_total = 2437 \<rparr>
         # fst (streamLoop (linearRepo 2437) 1000 False 2437 2000),
       snd (streamLoop (linearRepo 2437) 1000 False 2437 2000))"
    using streamLoop_more [of "linearRepo 2437" False 1000 1000 2437]
    by (simp add: progressOf_def round_eval)
  have c: "streamLoop (linearRepo 2437) 1000 False 2437 0 =
      (\<lparr> chunk_commits = map toCommit (take 1000 (drop 0 (logAll (linearRepo 2437) False))),
           progress = Num 41, chunk_total = 2437 \<rparr>
         # fst (streamLoop (linearRepo 2437) 1000 False 2437 1000),
       snd (streamLoop (linearRepo 2437) 1000 False 2437 1000))"
    using streamLoop_more [of "linearRepo 2437" False 1000 0 2437]
    by (simp add: progressOf_def round_eval)
  show ?thesis
    by (simp add: streamCommits_def a b c)
qed

text \<open>A first-parent stream of \<open>mergeRepo\<close> in chunks of 2: the three commits of the
  first-parent history are divided by the count of all four, so the stream ends at 75.\<close>

lemma mergeRepo_first_parent_stream:
  "map (\<lambda>c. (map hash (chunk_commits c), progress c, chunk_total c))
       (fst (streamCommits mergeRepo \<lparr> chunkSize = Some 2, so_firstParent = Some True \<rparr>))
     = [([''M'', ''A''], Num 50, 4), ([''R''], Num 75, 4)]
   \<and> snd (streamCommits mergeRepo \<lparr> chunkSize = Some 2, so_firstParent = Some True \<rparr>) = None"
proof -
  have a: "streamLoop mergeRepo 2 True 4 (Suc (Suc 0)) =
      ([\<lparr> chunk_commits = map toCommit [mkEntry ''R'' []], progress = Num 75, chunk_total = 4 \<rparr>], None)"
    by (simp add: streamLoop_last progressOf_def round_eval)
  show ?thesis
    using streamLoop_more [of mergeRepo True 2 0 4]
    by (simp add: streamCommits_def a progressOf_def round_eval)
qed

section \<open>Streaming endpoint\<close>

lemma commits_then_terminal_append:
  "commits_then_terminal (map CommitsEvent cs @ [t]) = (t = CompleteEvent \<or> (\<exists>e. t = ErrorEvent e))"
  by (induction cs) (cases t; simp)+

text \<open>The recogniser accepts exactly the lists of the shape metadata, commits events, terminal.\<close>

lemma commits_then_terminal_iff:
  "commits_then_terminal es \<longleftrightarrow>
     (\<exists>cs t. es = map CommitsEvent cs @ [t] \<and> (t = CompleteEvent \<or> (\<exists>e. t = ErrorEvent e)))"
proof
  assume "commits_then_terminal es"
  then show "\<exists>cs t. es = map CommitsEvent cs @ [t] \<and> (t = CompleteEvent \<or> (\<exists>e. t = ErrorEvent e))"
  proof (induction es rule: commits_then_terminal.induct)
    case 1
    show ?case by (rule exI [of _ "[]"]) simp
  next
    case (2 e)
    show ?case by (rule exI [of _ "[]"]) simp
  next
    case (3 c es)
    then obtain cs t where "es = map CommitsEvent cs @ [t]"
        and "t = CompleteEvent \<or> (\<exists>e. t = ErrorEvent e)"
      by auto
    then show ?case
      by (intro exI [of _ "c # cs"] exI [of _ t]) simp
  qed simp_all
next
  assume "\<exists>cs t. es = map CommitsEvent cs @ [t] \<and> (t = CompleteEvent \<or> (\<exists>e. t = ErrorEvent e))"
  then show "commits_then_terminal es"
    by (auto simp: commits_then_terminal_append)
qed

lemma stream_protocol_iff:
  "stream_protocol evs \<longleftrightarrow>
     (\<exists>m cs t. evs = MetadataEvent m # map CommitsEvent cs @ [t]
        \<and> (t = CompleteEvent \<or> (\<exists>e. t = ErrorEvent e)))"
proof (cases evs)
  case Nil
  then show ?thesis by simp
next
  case (Cons ev es)
  then show ?thesis
    by (cases ev) (simp_all add: commits_then_terminal_iff)
qed

lemma brokenRefsRepo_simps [simp]:
  "validateRepository brokenRefsRepo"
  "getRepositoryMetadata brokenRefsRepo = Inl ''fatal: bad object refs/heads/main''"
  by (simp_all add: brokenRefsRepo_def mergeRepo_def mkRepo_def validateRepository_def
      getRepositoryMetadata_def getBranches_def)

text \<open>
  C2 as stated fails: the metadata are fetched inside the same \<^verbatim>\<open>try\<close> block, after the
  headers of the event stream are set. When that fetch is rejected the stream consists of the
  error event alone, with no metadata event before it, however long the handler runs.
\<close>

theorem stream_route_metadata_counterexample:
  "(\<forall>n. stream_route n \<lparr> validatedPath = brokenRefsRepo, query_chunkSize = Some 1000,
                         query_firstParent = Some ''false'' \<rparr>
          = EventStream [ErrorEvent ''fatal: bad object refs/heads/main''])
   \<and> \<not> stream_protocol [ErrorEvent ''fatal: bad object refs/heads/main'']"
  by (simp add: stream_route_def)

text \<open>With a chunk size that is not negative the route runs the generator of the service on a
  positive size (\<^verbatim>\<open>|| 500\<close> replaces 0 and \<open>NaN\<close>), and the handler ends the stream: once
  the loop has been given more rounds than the enumeration has entries, the answer is the
  metadata event, one commits event per chunk of \<open>streamCommits\<close>, and the terminal event
  that tells how the generator ended.\<close>

lemma routeChunkSize_pos:
  assumes "case query_chunkSize req of None \<Rightarrow> True | Some k \<Rightarrow> 0 \<le> k"
  shows "0 < routeChunkSize req"
  using assms by (simp add: routeChunkSize_def split: option.splits)

lemma stream_route_nat:
  assumes valid: "validateRepository (validatedPath req)"
    and md: "getRepositoryMetadata (validatedPath req) = Inr m"
    and size: "0 \<le> routeChunkSize req"
    and fuel: "length (logAll (validatedPath req) (routeFirstParent req)) < n"
  shows "stream_route n req =
           EventStream (MetadataEvent m
             # map CommitsEvent
                 (fst (streamCommits (validatedPath req)
                     \<lparr> chunkSize = Some (nat (routeChunkSize req)),
                       so_firstParent = Some (routeFirstParent req) \<rparr>))
             @ [case snd (streamCommits (validatedPath req)
                     \<lparr> chunkSize = Some (nat (routeChunkSize req)),
                       so_firstParent = Some (routeFirstParent req) \<rparr>) of
                  None \<Rightarrow> CompleteEvent
                | Some e \<Rightarrow> ErrorEvent e])"
proof -
  let ?g = "validatedPath req"
  let ?fp = "routeFirstParent req"
  let ?cs = "nat (routeChunkSize req)"
  have fuel0: "length (logAll ?g ?fp) - 0 < n"
    using fuel by simp
  have "streamCommitsZ n ?g (routeChunkSize req) ?fp =
          streamLoopZ n ?g (int ?cs) ?fp (getTotalCommitCount ?g) (int 0)"
    using size by (simp add: streamCommitsZ_def)
  also have "\<dots> = (fst (streamLoop ?g ?cs ?fp (getTotalCommitCount ?g) 0),
                    case snd (streamLoop ?g ?cs ?fp (getTotalCommitCount ?g) 0) of
                      None \<Rightarrow> Returned | Some e \<Rightarrow> Threw e)"
    by (rule streamLoopZ_nat [OF fuel0])
  finally have z: "streamCommitsZ n ?g (routeChunkSize req) ?fp =
      (fst (streamLoop ?g ?cs ?fp (getTotalCommitCount ?g) 0),
       case snd (streamLoop ?g ?cs ?fp (getTotalCommitCount ?g) 0) of
         None \<Rightarrow> Returned | Some e \<Rightarrow> Threw e)" .
  show ?thesis
    using valid
    by (simp add: stream_route_def md z streamCommits_def Let_def split: option.splits)
qed

text \<open>
  C2, amended. Let the chunk size of the query be absent, not a number, or an integer that is
  not negative. A request for a path that is not a repository is answered with status 400 and
  no event. Every other request is answered with an event stream that the handler ends.
  When the metadata can be fetched the stream is: that metadata event, then zero or more
  commits events, then exactly one terminal event (complete or error), and nothing after it.
  When the metadata fetch is rejected the stream is the error event alone. (A negative chunk
  size is left out: the route has no guard against it, and the stream may then never reach
  a terminal event, lemma \<open>stream_route_negative_size\<close>.)
\<close>

theorem stream_route_events:
  assumes "case query_chunkSize req of None \<Rightarrow> True | Some k \<Rightarrow> 0 \<le> k"
  shows "(\<not> validateRepository (validatedPath req) \<longrightarrow>
            (\<forall>n. stream_route n req = JsonError 400 ''Not a valid git repository''))
       \<and> (validateRepository (validatedPath req) \<longrightarrow>
            (\<exists>evs. (\<forall>n. length (logAll (validatedPath req) (routeFirstParent req)) < n \<longrightarrow>
                         stream_route n req = EventStream evs)
               \<and> (case getRepositoryMetadata (validatedPath req) of
                     Inr m \<Rightarrow> stream_protocol evs \<and> hd evs = MetadataEvent m
                   | Inl e \<Rightarrow> evs = [ErrorEvent e])))"
proof (intro conjI impI)
  assume "\<not> validateRepository (validatedPath req)"
  then show "\<forall>n. stream_route n req = JsonError 400 ''Not a valid git repository''"
    by (simp add: stream_route_def)
next
  assume valid: "validateRepository (validatedPath req)"
  let ?so = "\<lparr> chunkSize = Some (nat (routeChunkSize req)),
               so_firstParent = Some (routeFirstParent req) \<rparr>"
  show "\<exists>evs. (\<forall>n. length (logAll (validatedPath req) (routeFirstParent req)) < n \<longrightarrow>
                   stream_route n req = EventStream evs)
          \<and> (case getRepositoryMetadata (validatedPath req) of
                Inr m \<Rightarrow> stream_protocol evs \<and> hd evs = MetadataEvent m
              | Inl e \<Rightarrow> evs = [ErrorEvent e])"
  proof (cases "getRepositoryMetadata (validatedPath req)")
    case (Inl e)
    with valid show ?thesis
      by (simp add: stream_route_def)
  next
    case (Inr m)
    let ?evs = "MetadataEvent m
        # map CommitsEvent (fst (streamCommits (validatedPath req) ?so))
        @ [case snd (streamCommits (validatedPath req) ?so) of
             None \<Rightarrow> CompleteEvent | Some e \<Rightarrow> ErrorEvent e]"
    have size: "0 \<le> routeChunkSize req"
      using routeChunkSize_pos [OF assms] by simp
    have run: "\<forall>n. length (logAll (validatedPath req) (routeFirstParent req)) < n \<longrightarrow>
                 stream_route n req = EventStream ?evs"
      using stream_route_nat [OF valid Inr size] by blast
    have shape: "stream_protocol ?evs \<and> hd ?evs = MetadataEvent m"
      by (simp add: commits_then_terminal_append split: option.splits)
    show ?thesis
      using run shape unfolding Inr by (intro exI [of _ ?evs]) simp
  qed
qed

lemma flakyRepo_simps [simp]:
  "validateRepository flakyRepo"
  "logError flakyRepo fp n s = (if s = 2 then Some ''git log failed'' else None)"
  "logAll flakyRepo False =
     [mkEntry ''M'' ''A B'', mkEntry ''B'' ''R'', mkEntry ''A'' ''R'', mkEntry ''R'' []]"
  "getTotalCommitCount flakyRepo = 4"
  by (simp_all add: flakyRepo_def mergeRepo_def mkRepo_def validateRepository_def getTotalCommitCount_def)

lemma flakyRepo_metadata:
  "\<exists>m. getRepositoryMetadata flakyRepo = Inr m"
  by (simp add: getRepositoryMetadata_def getBranches_def flakyRepo_def mergeRepo_def mkRepo_def)

lemma flakyRepo_stream:
  "streamCommits flakyRepo \<lparr> chunkSize = Some 2, so_firstParent = Some False \<rparr> =
     ([\<lparr> chunk_commits = map toCommit [mkEntry ''M'' ''A B'', mkEntry ''B'' ''R''],
          progress = Num 50, chunk_total = 4 \<rparr>], Some ''git log failed'')"
proof -
  have a: "streamLoop flakyRepo 2 False 4 (Suc (Suc 0)) = ([], Some ''git log failed'')"
    by (simp add: streamLoop_fail)
  show ?thesis
    using streamLoop_more [of flakyRepo False 2 0 4]
    by (simp add: streamCommits_def a progressOf_def round_eval)
qed

theorem stream_route_events_witness:
  "(case query_chunkSize \<lparr> validatedPath = flakyRepo, query_chunkSize = Some 2,
                           query_firstParent = None \<rparr> of None \<Rightarrow> True | Some k \<Rightarrow> 0 \<le> k)
   \<and> validateRepository flakyRepo
   \<and> length (logAll flakyRepo False) < 5
   \<and> (\<exists>m c. stream_route 5 \<lparr> validatedPath = flakyRepo, query_chunkSize = Some 2,
                             query_firstParent = None \<rparr>
             = EventStream [MetadataEvent m, CommitsEvent c, ErrorEvent ''git log failed'']
          \<and> stream_protocol [MetadataEvent m, CommitsEvent c, ErrorEvent ''git log failed''])"
proof -
  let ?req = "\<lparr> validatedPath = flakyRepo, query_chunkSize = Some 2, query_firstParent = None \<rparr>"
  let ?c = "\<lparr> chunk_commits = map toCommit [mkEntry ''M'' ''A B'', mkEntry ''B'' ''R''],
               progress = Num 50, chunk_total = 4 \<rparr>"
  obtain m where m: "getRepositoryMetadata flakyRepo = Inr m"
    using flakyRepo_metadata by blast
  have h: "case query_chunkSize ?req of None \<Rightarrow> True | Some k \<Rightarrow> 0 \<le> k"
    by simp
  have fp: "routeFirstParent ?req = False"
    by (simp add: routeFirstParent_def)
  from stream_route_events [OF h] obtain evs where
    run: "\<forall>n. length (logAll flakyRepo False) < n \<longrightarrow> stream_route n ?req = EventStream evs"
    and shape: "stream_protocol evs"
    by (auto simp: m fp)
  have "stream_route 5 ?req = EventStream [MetadataEvent m, CommitsEvent ?c, ErrorEvent ''git log failed'']"
    using stream_route_nat [of ?req m 5]
    by (simp add: m fp routeChunkSize_def flakyRepo_stream)
  moreover from run have "stream_route 5 ?req = EventStream evs"
    by simp
  ultimately have "evs = [MetadataEvent m, CommitsEvent ?c, ErrorEvent ''git log failed'']"
    by simp
  with shape run show ?thesis
    by (intro conjI exI [of _ m] exI [of _ ?c]) simp_all
qed

subsection \<open>A negative chunk size\<close>

text \<open>\<^verbatim>\<open>parseInt\<close> reads \<^verbatim>\<open>chunkSize=-1\<close> as \<open>-1\<close>, which \<^verbatim>\<open>|| 500\<close> keeps. When the
  metadata can be fetched, no log call is rejected and the enumeration has more than
  \<open>-chunkSize\<close> entries, the stream is open after any number of rounds: the handler has
  written the metadata event and one commits event per round, and no terminal event.\<close>

lemma stream_route_negative_size:
  assumes valid: "validateRepository (validatedPath req)"
    and md: "getRepositoryMetadata (validatedPath req) = Inr m"
    and size: "query_chunkSize req = Some k" "k < 0"
    and log: "\<forall>n s. logError (validatedPath req) (routeFirstParent req) n s = None"
    and long: "nat (- k) < length (logAll (validatedPath req) (routeFirstParent req))"
  shows "\<exists>chunks. stream_route n req = OpenStream (MetadataEvent m # map CommitsEvent chunks)
           \<and> length chunks = n"
proof -
  have cs: "routeChunkSize req = k"
    using size by (simp add: routeChunkSize_def)
  have le: "(0::int) \<le> 0"
    by simp
  from streamLoopZ_negative_size [OF size(2) le log long,
      of n "getTotalCommitCount (validatedPath req)"]
  show ?thesis
    using valid
    by (cases "streamLoopZ n (validatedPath req) k (routeFirstParent req)
                 (getTotalCommitCount (validatedPath req)) 0")
       (auto simp add: stream_route_def md cs streamCommitsZ_def)
qed

section \<open>Streaming consumer\<close>

text \<open>Invariant of a session once the metadata event has been handled: the view exists, its
  commit list is the buffer, and its loaded count is the length of the buffer.\<close>

lemma session_ok_onMetadata: "session_ok (onMetadata md (startStreaming mode st))"
  by (simp add: session_ok_def onMetadata_def startStreaming_def)

lemma snd_onMetadata: "snd (onMetadata md (startStreaming mode st)) = []"
  by (simp add: onMetadata_def startStreaming_def)

lemma onChunk_step:
  "snd (onChunk fmt s c) = snd s @ chunk_commits c"
  "repository (fst s) \<noteq> None \<Longrightarrow> session_ok (onChunk fmt s c)"
  by (cases s; auto simp: onChunk_def onCommits_def session_ok_def Let_def split: option.splits)+

lemma consumeChunks_snoc: "consumeChunks fmt (cs @ [c]) s = onChunk fmt (consumeChunks fmt cs s) c"
  by (simp add: consumeChunks_def)

lemma consumeChunks_ok:
  assumes "session_ok s"
  shows "session_ok (consumeChunks fmt chunks s)
       \<and> snd (consumeChunks fmt chunks s) = snd s @ concat (map chunk_commits chunks)"
proof (induction chunks rule: rev_induct)
  case Nil
  show ?case using assms by (simp add: consumeChunks_def)
next
  case (snoc c cs)
  then have "repository (fst (consumeChunks fmt cs s)) \<noteq> None"
    by (auto simp: session_ok_def split: option.splits)
  with snoc show ?case
    by (simp add: consumeChunks_snoc onChunk_step)
qed

lemma consumeChunks_view:
  "\<exists>r. repository (fst (consumeChunks fmt chunks (onMetadata md (startStreaming mode st)))) = Some r
      \<and> view_commits r = concat (map chunk_commits chunks)
      \<and> loadedCommitCount r = Some (length (concat (map chunk_commits chunks)))"
  using consumeChunks_ok [OF session_ok_onMetadata, of fmt chunks md mode st]
  by (auto simp: session_ok_def snd_onMetadata split: option.splits)

text \<open>
  C3. After the metadata event, for every finite sequence of commits events consumed in order
  of arrival, the commit list of the repository view is the concatenation of the chunks
  (nothing sorted, removed or dropped) and \<open>loadedCommitCount\<close> is the sum of the chunk
  lengths.
\<close>

theorem consumeChunks_concat:
  "\<exists>r. repository (fst (consumeChunks fmt chunks (onMetadata md (startStreaming mode st)))) = Some r
      \<and> view_commits r = concat (map chunk_commits chunks)
      \<and> loadedCommitCount r = Some (sum_list (map (\<lambda>c. length (chunk_commits c)) chunks))"
  using consumeChunks_view [of fmt chunks md mode st]
  by (simp add: length_concat comp_def)

lemma onComplete_keeps_view:
  "repository (fst (onComplete s)) = repository (fst s) \<and> snd (onComplete s) = snd s
   \<and> \<not> isLoading (fst (onComplete s)) \<and> loadingProgress (fst (onComplete s)) = Num 100"
  by (cases s) (simp add: onComplete_def)

text \<open>
  C8. The error callback stores the message as it is, ends the loading state, drops the abort
  handle and starts nothing new; it leaves the repository view and the buffer untouched. So
  when an error event arrives after some chunks were merged, every commit merged before it is
  still in the view.
\<close>

theorem onError_keeps_view:
  "repository (fst (onError msg s)) = repository (fst s)
   \<and> snd (onError msg s) = snd s
   \<and> error (fst (onError msg s)) = Some msg
   \<and> \<not> isLoading (fst (onError msg s))
   \<and> abortStream (fst (onError msg s)) = None
   \<and> (\<exists>r. repository (fst (onError msg (consumeChunks fmt chunks (onMetadata md (startStreaming mode st))))) = Some r
          \<and> view_commits r = concat (map chunk_commits chunks))"
  using consumeChunks_view [of fmt chunks md mode st]
  by (cases s) (auto simp: onError_def split: prod.splits)

section \<open>Graph layout engine\<close>

declare parentLoop.simps [simp del]

lemma snd_parentLoop:
  "snd (parentLoop S cm c i acc) =
     snd acc @ map (commitEdge cm c) (filter (\<lambda>j. parents c ! j \<in> S) [i..<length (parents c)])"
proof (induction S cm c i acc rule: parentLoop.induct)
  case (1 S cm c i g es)
  show ?case
  proof (cases "i < length (parents c)")
    case False
    then show ?thesis by (simp add: parentLoop.simps [of S cm c i g es])
  next
    case inside: True
    then have upt: "[i..<length (parents c)] = i # [i + 1..<length (parents c)]"
      by (simp add: upt_conv_Cons)
    show ?thesis
    proof (cases "parents c ! i \<in> S")
      case True
      with inside "1.IH"(1) [OF inside refl True] upt
      show ?thesis
        by (simp add: parentLoop.simps [of S cm c i g es] Let_def)
    next
      case False
      with inside "1.IH"(2) [OF inside refl False] upt
      show ?thesis
        by (simp add: parentLoop.simps [of S cm c i g es] Let_def)
    qed
  qed
qed

lemma snd_edge_fold:
  "snd (foldl (\<lambda>acc commit. parentLoop S cm commit 0 acc) (g, es) cs) =
     es @ concat (map (\<lambda>c. map (commitEdge cm c)
                        (filter (\<lambda>j. parents c ! j \<in> S) [0..<length (parents c)])) cs)"
proof (induction cs arbitrary: g es)
  case Nil
  show ?case by simp
next
  case (Cons c cs)
  obtain g' es' where step: "parentLoop S cm c 0 (g, es) = (g', es')"
    by (cases "parentLoop S cm c 0 (g, es)")
  with snd_parentLoop [of S cm c 0 "(g, es)"]
  have "es' = es @ map (commitEdge cm c) (filter (\<lambda>j. parents c ! j \<in> S) [0..<length (parents c)])"
    by simp
  with Cons [of g' es'] step show ?case by simp
qed

lemma layout_edges:
  "edges (layoutCommitGraph env cs options gs) =
     edgesOf (if colorByAuthor gs then assignAuthorColors env cs else assignBranchColors env cs) cs"
proof (cases "cs = []")
  case True
  then show ?thesis by (simp add: layoutCommitGraph_def edgesOf_def)
next
  case False
  then show ?thesis
    by (simp add: layoutCommitGraph_def Let_def case_prod_beta snd_edge_fold edgesOf_def)
qed

lemma commitEdge_simps [simp]:
  "source (commitEdge cm c i) = hash c"
  "target (commitEdge cm c i) = parents c ! i"
  "isMerge (edge_data (commitEdge cm c i)) = (0 < i)"
  by (simp_all add: commitEdge_def Let_def)

lemma set_edgesOf:
  "set (edgesOf cm cs) =
     {commitEdge cm c i | c i. c \<in> set cs \<and> i < length (parents c) \<and> parents c ! i \<in> hash ` set cs}"
  by (auto simp: edgesOf_def)

lemma length_filter_index:
  "length (filter (\<lambda>j. P (xs ! j)) [0..<length xs]) = length (filter P xs)"
proof -
  have "filter P xs = filter P (map (nth xs) [0..<length xs])"
    by (simp add: map_nth)
  also have "\<dots> = map (nth xs) (filter (\<lambda>j. P (xs ! j)) [0..<length xs])"
    by (simp add: filter_map comp_def)
  finally show ?thesis by simp
qed

lemma length_edgesOf:
  "length (edgesOf cm cs) =
     sum_list (map (\<lambda>c. length (filter (\<lambda>p. p \<in> hash ` set cs) (parents c))) cs)"
  by (simp add: edgesOf_def length_concat comp_def
      length_filter_index [of "\<lambda>p. p \<in> hash ` set cs"])

text \<open>
  C5. For every commit list \<open>S\<close> handed to \<open>layoutCommitGraph\<close>: the set of
  (source, target) pairs of the produced edges is exactly
  \<open>{(c.hash, p) : c \<in> S, p \<in> c.parents, p \<in> hashes(S)}\<close>; no edge names a hash outside
  \<open>S\<close>; every edge belongs to a parent index \<open>i\<close> of a commit of \<open>S\<close> and is tagged
  \<open>isMerge = (i > 0)\<close>; every parent index whose hash is in \<open>S\<close> has its edge; and the
  number of edges is the number of such parent entries, so a parent outside \<open>S\<close> is dropped
  and nothing else is.
\<close>

theorem layoutCommitGraph_edges:
  "(\<lambda>e. (source e, target e)) ` set (edges (layoutCommitGraph env cs options gs)) =
       {(hash c, p) | c p. c \<in> set cs \<and> p \<in> set (parents c) \<and> p \<in> hash ` set cs}
   \<and> (\<forall>e \<in> set (edges (layoutCommitGraph env cs options gs)).
         source e \<in> hash ` set cs \<and> target e \<in> hash ` set cs)
   \<and> (\<forall>e \<in> set (edges (layoutCommitGraph env cs options gs)).
         \<exists>c \<in> set cs. \<exists>i < length (parents c).
           source e = hash c \<and> target e = parents c ! i \<and> isMerge (edge_data e) = (0 < i))
   \<and> (\<forall>c \<in> set cs. \<forall>i < length (parents c). parents c ! i \<in> hash ` set cs \<longrightarrow>
         (\<exists>e \<in> set (edges (layoutCommitGraph env cs options gs)).
            source e = hash c \<and> target e = parents c ! i \<and> isMerge (edge_data e) = (0 < i)))
   \<and> length (edges (layoutCommitGraph env cs options gs)) =
         sum_list (map (\<lambda>c. length (filter (\<lambda>p. p \<in> hash ` set cs) (parents c))) cs)"
proof -
  let ?cm = "if colorByAuthor gs then assignAuthorColors env cs else assignBranchColors env cs"
  let ?E = "set (edges (layoutCommitGraph env cs options gs))"
  have E: "?E = {commitEdge ?cm c i | c i.
                  c \<in> set cs \<and> i < length (parents c) \<and> parents c ! i \<in> hash ` set cs}"
    by (simp only: layout_edges set_edgesOf)
  have 1: "(\<lambda>e. (source e, target e)) ` ?E =
       {(hash c, p) | c p. c \<in> set cs \<and> p \<in> set (parents c) \<and> p \<in> hash ` set cs}"
  proof (intro set_eqI iffI)
    fix x assume "x \<in> (\<lambda>e. (source e, target e)) ` ?E"
    then obtain c i where ci: "c \<in> set cs" "i < length (parents c)"
        "parents c ! i \<in> hash ` set cs" "x = (hash c, parents c ! i)"
      unfolding E by auto
    from ci(2) have "parents c ! i \<in> set (parents c)"
      by (rule nth_mem)
    with ci show "x \<in> {(hash c, p) | c p. c \<in> set cs \<and> p \<in> set (parents c) \<and> p \<in> hash ` set cs}"
      by blast
  next
    fix x assume "x \<in> {(hash c, p) | c p. c \<in> set cs \<and> p \<in> set (parents c) \<and> p \<in> hash ` set cs}"
    then obtain c p where c: "c \<in> set cs" "p \<in> set (parents c)" "p \<in> hash ` set cs" "x = (hash c, p)"
      by auto
    from c(2) obtain i where i: "i < length (parents c)" "parents c ! i = p"
      by (auto simp: in_set_conv_nth)
    with c have "commitEdge ?cm c i \<in> ?E"
      unfolding E by blast
    then have "(source (commitEdge ?cm c i), target (commitEdge ?cm c i)) \<in> (\<lambda>e. (source e, target e)) ` ?E"
      by (rule imageI)
    with c i show "x \<in> (\<lambda>e. (source e, target e)) ` ?E"
      by simp
  qed
  have 2: "\<forall>e \<in> ?E. source e \<in> hash ` set cs \<and> target e \<in> hash ` set cs"
    unfolding E by auto
  have 3: "\<forall>e \<in> ?E. \<exists>c \<in> set cs. \<exists>i < length (parents c).
           source e = hash c \<and> target e = parents c ! i \<and> isMerge (edge_data e) = (0 < i)"
  proof
    fix e assume "e \<in> ?E"
    then obtain c i where ci: "c \<in> set cs" "i < length (parents c)" "e = commitEdge ?cm c i"
      unfolding E by auto
    then have "i < length (parents c) \<and>
        source e = hash c \<and> target e = parents c ! i \<and> isMerge (edge_data e) = (0 < i)"
      by simp
    with ci(1) show "\<exists>c \<in> set cs. \<exists>i < length (parents c).
           source e = hash c \<and> target e = parents c ! i \<and> isMerge (edge_data e) = (0 < i)"
      by blast
  qed
  have 4: "\<forall>c \<in> set cs. \<forall>i < length (parents c). parents c ! i \<in> hash ` set cs \<longrightarrow>
         (\<exists>e \<in> ?E. source e = hash c \<and> target e = parents c ! i \<and> isMerge (edge_data e) = (0 < i))"
  proof (intro ballI allI impI)
    fix c i assume "c \<in> set cs" "i < length (parents c)" "parents c ! i \<in> hash ` set cs"
    then have "commitEdge ?cm c i \<in> ?E"
      unfolding E by blast
    then show "\<exists>e \<in> ?E. source e = hash c \<and> target e = parents c ! i \<and> isMerge (edge_data e) = (0 < i)"
      by (rule bexI [rotated]) simp
  qed
  have 5: "length (edges (layoutCommitGraph env cs options gs)) =
         sum_list (map (\<lambda>c. length (filter (\<lambda>p. p \<in> hash ` set cs) (parents c))) cs)"
    by (simp only: layout_edges length_edgesOf)
  from 1 2 3 4 5 show ?thesis by blast
qed

text \<open>
  C6. Two calls of \<open>layoutCommitGraph\<close> that differ only in \<open>highlightedCommits\<close> give
  every node the same position; the nodes agree in everything but the \<open>isHighlighted\<close>
  flag, the edges are the same, and the flag of a node says whether its hash is in the set.
\<close>

theorem layoutCommitGraph_highlight_independent:
  "map position (nodes (layoutCommitGraph env cs options (gs\<lparr> highlightedCommits := h1 \<rparr>))) =
     map position (nodes (layoutCommitGraph env cs options (gs\<lparr> highlightedCommits := h2 \<rparr>)))
   \<and> map (\<lambda>n. n\<lparr> node_data := (node_data n)\<lparr> isHighlighted := False \<rparr> \<rparr>)
         (nodes (layoutCommitGraph env cs options (gs\<lparr> highlightedCommits := h1 \<rparr>))) =
     map (\<lambda>n. n\<lparr> node_data := (node_data n)\<lparr> isHighlighted := False \<rparr> \<rparr>)
         (nodes (layoutCommitGraph env cs options (gs\<lparr> highlightedCommits := h2 \<rparr>)))
   \<and> edges (layoutCommitGraph env cs options (gs\<lparr> highlightedCommits := h1 \<rparr>)) =
     edges (layoutCommitGraph env cs options (gs\<lparr> highlightedCommits := h2 \<rparr>))
   \<and> map (\<lambda>n. isHighlighted (node_data n))
         (nodes (layoutCommitGraph env cs options (gs\<lparr> highlightedCommits := h1 \<rparr>))) =
     map (\<lambda>c. hash c \<in> h1) cs"
  by (simp add: layoutCommitGraph_def Let_def case_prod_beta comp_def)

section \<open>The statements on the example repository\<close>

text \<open>The metadata and the stream of \<open>mergeRepo\<close>, computed by the service.\<close>

lemma mergeRepo_metadata: "getRepositoryMetadata mergeRepo = Inr demoMetadata"
  by (simp add: getRepositoryMetadata_def getBranches_def getTags_def getCurrentBranch_def
      getRepoStats_def repoName_def trim_def isSpace_def demoMetadata_def
      LARGE_REPO_THRESHOLD_def HUGE_REPO_THRESHOLD_def mergeRepo_def mkRepo_def
      getTotalCommitCount_def Let_def)

lemma mergeRepo_stream:
  "streamCommits mergeRepo \<lparr> chunkSize = Some 2, so_firstParent = Some False \<rparr> = (demoChunks, None)"
proof -
  have a: "streamLoop mergeRepo 2 False 4 (Suc (Suc 0)) = ([demoChunks ! 1], None)"
    by (simp add: streamLoop_last progressOf_def round_eval demoChunks_def)
  show ?thesis
    using streamLoop_more [of mergeRepo False 2 0 4]
    by (simp add: streamCommits_def a progressOf_def round_eval demoChunks_def)
qed

text \<open>The first five rounds of a stream of \<open>mergeRepo\<close> with chunk size \<open>-1\<close>: every commits
  event carries the first three of the four commits, and the progress falls by 25 each
  round, below 0 from the fifth on.\<close>

lemma mergeRepo_valid [simp]: "validateRepository mergeRepo"
  by (simp add: validateRepository_def mergeRepo_def mkRepo_def)

lemma mergeRepo_page_minus_one:
  "sk \<le> 0 \<Longrightarrow> getCommitsPaginatedZ mergeRepo (- 1) sk False =
     Inr \<lparr> commits = map toCommit [mkEntry ''M'' ''A B'', mkEntry ''B'' ''R'', mkEntry ''A'' ''R''],
           total = 4, hasMore = True \<rparr>"
  by (simp add: getCommitsPaginatedZ_def git_logZ_def slice0_def Let_def)

lemma mergeRepo_stream_minus_one:
  "stream_route 5 \<lparr> validatedPath = mergeRepo, query_chunkSize = Some (- 1),
                     query_firstParent = None \<rparr>
     = OpenStream (MetadataEvent demoMetadata
         # map (\<lambda>p. CommitsEvent
                  \<lparr> chunk_commits =
                      map toCommit [mkEntry ''M'' ''A B'', mkEntry ''B'' ''R'', mkEntry ''A'' ''R''],
                    progress = p, chunk_total = 4 \<rparr>)
             [Num 75, Num 50, Num 25, Num 0, Num (- 25)])"
proof -
  have five: "(5::nat) = Suc (Suc (Suc (Suc (Suc 0))))"
    by simp
  have p: "progressOf 3 4 = Num 75" "progressOf 2 4 = Num 50" "progressOf 1 4 = Num 25"
      "progressOf 0 4 = Num 0" "progressOf (- 1) 4 = Num (- 25)"
    by (simp_all add: progressOf_def round_eval)
  show ?thesis
    unfolding five
    by (simp add: stream_route_def mergeRepo_metadata routeChunkSize_def routeFirstParent_def
        streamCommitsZ_def mergeRepo_page_minus_one p)
qed

lemma parents_toCommit [simp]:
  "parents (toCommit (mkEntry ''M'' ''A B'')) = [''A'', ''B'']"
  "parents (toCommit (mkEntry ''A'' ''R'')) = [''R'']"
  "parents (toCommit (mkEntry ''B'' ''R'')) = [''R'']"
  "parents (toCommit (mkEntry ''R'' [])) = []"
  by (simp_all add: toCommit_def mkEntry_def)

theorem consumeChunks_concat_witness:
  "\<exists>r. repository (fst (consumeChunks showNat demoChunks (onMetadata demoMetadata (startStreaming Paginated initialState))))
         = Some r
      \<and> map hash (view_commits r) = [''M'', ''B'', ''A'', ''R'']
      \<and> loadedCommitCount r = Some 4"
  using consumeChunks_concat [of showNat demoChunks demoMetadata Paginated initialState]
  by (auto simp: demoChunks_def)

theorem onError_keeps_view_witness:
  "error (fst (onError ''git log failed''
          (consumeChunks showNat demoChunks (onMetadata demoMetadata (startStreaming Paginated initialState)))))
     = Some ''git log failed''
   \<and> (\<exists>r. repository (fst (onError ''git log failed''
              (consumeChunks showNat demoChunks (onMetadata demoMetadata (startStreaming Paginated initialState)))))
            = Some r
          \<and> map hash (view_commits r) = [''M'', ''B'', ''A'', ''R''])"
proof -
  let ?s = "consumeChunks showNat demoChunks (onMetadata demoMetadata (startStreaming Paginated initialState))"
  note kept = onError_keeps_view [where msg = "''git log failed''" and s = ?s and fmt = showNat
      and chunks = demoChunks and md = demoMetadata and mode = Paginated and st = initialState]
  from kept have e: "error (fst (onError ''git log failed'' ?s)) = Some ''git log failed''"
    by (elim conjE)
  from kept obtain r where r: "repository (fst (onError ''git log failed'' ?s)) = Some r"
      "view_commits r = concat (map chunk_commits demoChunks)"
    by (elim conjE exE)
  from r(2) have "map hash (view_commits r) = [''M'', ''B'', ''A'', ''R'']"
    by (simp add: demoChunks_def)
  with e r(1) show ?thesis
    by (intro conjI exI [of _ r]) assumption+
qed

theorem layoutCommitGraph_edges_witness:
  "(\<exists>e. e \<in> set (edges (layoutCommitGraph demoEnv (map toCommit (logAll mergeRepo False))
                          demoOptions demoSettings))
        \<and> source e = ''M'' \<and> target e = ''B'' \<and> isMerge (edge_data e))
   \<and> map (\<lambda>e. (source e, target e, isMerge (edge_data e)))
        (edges (layoutCommitGraph demoEnv (map toCommit (logAll mergeRepo True))
                  demoOptions demoSettings))
       = [(''M'', ''A'', False), (''A'', ''R'', False)]"
proof -
  let ?cs = "map toCommit (logAll mergeRepo False)"
  let ?M = "toCommit (mkEntry ''M'' ''A B'')"
  let ?E = "set (edges (layoutCommitGraph demoEnv ?cs demoOptions demoSettings))"
  have present: "\<forall>c \<in> set ?cs. \<forall>i < length (parents c). parents c ! i \<in> hash ` set ?cs \<longrightarrow>
         (\<exists>e \<in> ?E. source e = hash c \<and> target e = parents c ! i \<and> isMerge (edge_data e) = (0 < i))"
    using layoutCommitGraph_edges [of demoEnv ?cs demoOptions demoSettings] by blast
  have "?M \<in> set ?cs" "1 < length (parents ?M)" "parents ?M ! 1 \<in> hash ` set ?cs"
    by simp_all
  with present have "\<exists>e \<in> ?E. source e = hash ?M \<and> target e = parents ?M ! 1
      \<and> isMerge (edge_data e) = (0 < (1::nat))"
    by blast
  then have first: "\<exists>e. e \<in> ?E \<and> source e = ''M'' \<and> target e = ''B'' \<and> isMerge (edge_data e)"
    by auto
  have second: "map (\<lambda>e. (source e, target e, isMerge (edge_data e)))
        (edges (layoutCommitGraph demoEnv (map toCommit (logAll mergeRepo True)) demoOptions demoSettings))
       = [(''M'', ''A'', False), (''A'', ''R'', False)]"
    by (simp add: layout_edges edgesOf_def)
  from first second show ?thesis by blast
qed

theorem layoutCommitGraph_highlight_independent_witness:
  "map position (nodes (layoutCommitGraph demoEnv (map toCommit (logAll mergeRepo True)) demoOptions
                          (demoSettings\<lparr> highlightedCommits := {''M''} \<rparr>)))
     = map position (nodes (layoutCommitGraph demoEnv (map toCommit (logAll mergeRepo True)) demoOptions
                          (demoSettings\<lparr> highlightedCommits := {} \<rparr>)))
   \<and> map (\<lambda>n. isHighlighted (node_data n))
        (nodes (layoutCommitGraph demoEnv (map toCommit (logAll mergeRepo True)) demoOptions
                          (demoSettings\<lparr> highlightedCommits := {''M''} \<rparr>)))
     = [True, False, False]"
  using layoutCommitGraph_highlight_independent
    [where env = demoEnv and cs = "map toCommit (logAll mergeRepo True)" and options = demoOptions
       and gs = demoSettings and ?h1.0 = "{''M''}" and ?h2.0 = "{}"]
  by simp

text \<open>The positions of the three nodes of the first-parent history, under the stand-in layout.\<close>

lemma demo_positions:
  "map position (nodes (layoutCommitGraph demoEnv (map toCommit (logAll mergeRepo True)) demoOptions demoSettings))
   = [\<lparr> pos_x = 50, pos_y = 50 \<rparr>, \<lparr> pos_x = 50, pos_y = 230 \<rparr>, \<lparr> pos_x = 50, pos_y = 410 \<rparr>]"
  by (simp add: layoutCommitGraph_def Let_def case_prod_beta demoEnv_def demoOptions_def demoSettings_def
      setNode_def setGraph_def newGraph_def NODE_WIDTH_NORMAL_def NODE_HEIGHT_NORMAL_def
      parentLoop.simps setEdge_def)

end
